theory Spec2Isabelle
  imports Complex_Main "HOL-Library.Log_Nat"
begin

section \<open>Binary64 arithmetic\<close>

text \<open>
  A JavaScript number is an IEEE 754 binary64 value. Wherever the source turns a product,
  a quotient or a difference of numbers into an index, a count or a length (with
  \<open>Math.floor\<close> or \<open>Math.ceil\<close>), the model rounds the operation as the source does:
  \<open>fl x\<close> is \<open>x\<close> rounded to the nearest binary64 number, ties to the even significand,
  with gradual underflow (the spacing never falls below \<open>2^-1074\<close>). Overflow to Infinity,
  for magnitudes of \<open>2^1024\<close> and more, is not represented, and a division by zero gives 0
  as in HOL (the source never uses the result of one). Sample values, amplitudes and
  pixel ordinates are carried as exact reals; so is the resampling index of the spectrum
  extractor, whose quotient and products are exact in binary64 for a power-of-two
  \<open>fftSize\<close> (lemma \<open>spectrum_pick_exact\<close>). Array indices and lengths are \<open>nat\<close> or
  \<open>int\<close> (an index the source computes with \<open>Math.floor\<close> may be negative).
\<close>

text \<open>Rounding to the nearest integer, a tie going to the even one.\<close>

definition rne :: "real \<Rightarrow> int" where
  "rne x =
     (let n = \<lfloor>x\<rfloor>;
          r = x - of_int n
      in if r < 1 / 2 then n else if 1 / 2 < r then n + 1 else if even n then n else n + 1)"

text \<open>The exponent \<open>e\<close> with \<open>2^e \<le> |x| < 2^(e+1)\<close>, for \<open>x \<noteq> 0\<close>.\<close>

definition binade :: "real \<Rightarrow> int" where
  "binade x =
     (if 1 \<le> \<bar>x\<bar> then bitlen \<lfloor>\<bar>x\<bar>\<rfloor> - 1 else - bitlen (\<lceil>1 / \<bar>x\<bar>\<rceil> - 1))"

text \<open>
  A binary64 significand has 53 bits, so the numbers around \<open>x\<close> are the multiples of
  \<open>2^(e-52)\<close>, and of \<open>2^-1074\<close> in the subnormal range.
\<close>

definition fl :: "real \<Rightarrow> real" where
  "fl x =
     (let q = max (binade x - 52) (- 1074)
      in of_int (rne (x / 2 powi q)) * 2 powi q)"

definition dadd :: "real \<Rightarrow> real \<Rightarrow> real" where
  "dadd a b = fl (a + b)"

definition dsub :: "real \<Rightarrow> real \<Rightarrow> real" where
  "dsub a b = fl (a - b)"

definition dmul :: "real \<Rightarrow> real \<Rightarrow> real" where
  "dmul a b = fl (a * b)"

definition ddiv :: "real \<Rightarrow> real \<Rightarrow> real" where
  "ddiv a b = fl (a / b)"

section \<open>Data model\<close>

datatype error = ChannelOutOfRange | NoTracksToMix | InvalidArrayLength

text \<open>
  The buffer interface used by the core (\<open>CLIAudioBuffer\<close> in
  \<open>cli/adapters/CLIAudioTrack.ts\<close>, the Web Audio \<open>AudioBuffer\<close> in the browser):
  every field is stored on its own, as in the source.
\<close>

record AudioBuffer =
  duration :: real
  sampleRate :: real
  numberOfChannels :: nat
  buf_length :: nat
  channelData :: "real list list"

text \<open>\<open>getChannelData\<close> raises for a channel index that does not exist.\<close>

definition getChannelData :: "AudioBuffer \<Rightarrow> nat \<Rightarrow> error + real list" where
  "getChannelData b channel =
     (if channel \<ge> length (channelData b) then Inl ChannelOutOfRange
      else Inr (channelData b ! channel))"

record AudioTrack =
  track_id :: string
  track_name :: string
  buffer :: AudioBuffer
  color :: string
  opacity :: real

section \<open>Waveform extractor (\<open>src/core/AudioTrack.ts\<close>)\<close>

text \<open>
  The inner loop of \<open>getWaveformDataForTimeWindow\<close> (lines 112--120): the running
  maximum of \<open>|channelData[j]|\<close> for \<open>j\<close> from \<open>start\<close> up to \<open>end - 1\<close>, starting at 0,
  reading only indices inside the channel.
\<close>

definition peakStep :: "real list \<Rightarrow> int \<Rightarrow> real \<Rightarrow> real" where
  "peakStep chan j mx =
     (if j \<ge> 0 \<and> j < int (length chan)
      then (let a = \<bar>chan ! nat j\<bar> in if a > mx then a else mx)
      else mx)"

definition bucketPeak :: "real list \<Rightarrow> int \<Rightarrow> int \<Rightarrow> real" where
  "bucketPeak chan start end = fold (peakStep chan) [start..end - 1] 0"

text \<open>
  \<open>applySmoothingFilter\<close> (lines 138--162). The source overwrites the buffer in place
  while reading from a copy; the model returns the new buffer.
\<close>

definition smoothStep :: "real list \<Rightarrow> nat \<Rightarrow> int \<Rightarrow> real \<times> nat \<Rightarrow> real \<times> nat" where
  "smoothStep original i j acc =
     (let index = int i + j in
      if index \<ge> 0 \<and> index < int (length original)
      then (fst acc + original ! nat index, snd acc + 1)
      else acc)"

definition smoothAt :: "real list \<Rightarrow> nat \<Rightarrow> nat \<Rightarrow> real" where
  "smoothAt original halfWindow i =
     (let acc = fold (smoothStep original i) [- int halfWindow..int halfWindow] (0, 0)
      in if snd acc > 0 then fst acc / real (snd acc) else original ! i)"

definition applySmoothingFilter :: "real list \<Rightarrow> nat \<Rightarrow> real list" where
  "applySmoothingFilter waveform level =
     (let windowSize = 1 + level * 2;
          halfWindow = windowSize div 2
      in map (smoothAt waveform halfWindow) [0..<length waveform])"

text \<open>
  Lines 97--130 of \<open>getWaveformDataForTimeWindow\<close>: everything after the sample indices
  are known. \<open>targetWidth\<close> is a pixel count and \<open>smoothingLevel\<close> a level 0--5, both
  naturals.
\<close>

definition extractPeaks :: "real list \<Rightarrow> int \<Rightarrow> int \<Rightarrow> nat \<Rightarrow> nat \<Rightarrow> real list" where
  "extractPeaks chan startSample endSample targetWidth smoothingLevel =
     (let totalSamples = endSample - startSample in
      if totalSamples \<le> 0 then replicate targetWidth 0
      else
        let samplesPerPixel = ddiv (real_of_int totalSamples) (real targetWidth);
            waveform = map (\<lambda>i.
                bucketPeak chan
                  (startSample + \<lfloor>dmul (real i) samplesPerPixel\<rfloor>)
                  (min (startSample + \<lfloor>dmul (real (i + 1)) samplesPerPixel\<rfloor>) endSample))
              [0..<targetWidth]
        in if smoothingLevel > 0 then applySmoothingFilter waveform smoothingLevel
           else waveform)"

text \<open>\<open>getWaveformDataForTimeWindow\<close> (lines 69--131).\<close>

definition getWaveformDataForTimeWindow ::
  "AudioTrack \<Rightarrow> real \<Rightarrow> real \<Rightarrow> nat \<Rightarrow> nat \<Rightarrow> error + real list" where
  "getWaveformDataForTimeWindow tr currentTime windowDuration targetWidth smoothingLevel =
     (case getChannelData (buffer tr) 0 of
        Inl e \<Rightarrow> Inl e
      | Inr chan \<Rightarrow>
         (let (startTime, endTime) =
                (if currentTime < windowDuration
                 then (0, min windowDuration (duration (buffer tr)))
                 else (dsub currentTime windowDuration, currentTime));
              startSample = \<lfloor>dmul startTime (sampleRate (buffer tr))\<rfloor>;
              endSample = min \<lfloor>dmul endTime (sampleRate (buffer tr))\<rfloor> (int (length chan))
          in Inr (extractPeaks chan startSample endSample targetWidth smoothingLevel)))"

section \<open>Spectrum extractor (\<open>src/core/AudioTrack.ts\<close>)\<close>

text \<open>
  The spectrum path can produce JavaScript's NaN by itself: a read past the end of a
  \<open>Float32Array\<close> yields \<open>undefined\<close>, which arithmetic and typed-array stores turn
  into NaN, and \<open>0 / 0\<close> is NaN. Values of that path are therefore \<open>jsnum\<close>: a real
  or NaN, with NaN-propagating arithmetic.
\<close>

datatype jsnum = Num real | NaN

fun jadd :: "jsnum \<Rightarrow> jsnum \<Rightarrow> jsnum" where
  "jadd (Num a) (Num b) = Num (a + b)"
| "jadd _ _ = NaN"

fun jsub :: "jsnum \<Rightarrow> jsnum \<Rightarrow> jsnum" where
  "jsub (Num a) (Num b) = Num (a - b)"
| "jsub _ _ = NaN"

fun jmul :: "jsnum \<Rightarrow> jsnum \<Rightarrow> jsnum" where
  "jmul (Num a) (Num b) = Num (a * b)"
| "jmul _ _ = NaN"

fun jsqrt :: "jsnum \<Rightarrow> jsnum" where
  "jsqrt (Num a) = (if a < 0 then NaN else Num (sqrt a))"
| "jsqrt NaN = NaN"

text \<open>
  \<open>Math.log10\<close>. Its value at 0 is minus Infinity, which \<open>jsnum\<close> does not hold; the one
  call of the source has an argument of at least 1 (lemma \<open>spectrum_bar_argument\<close>).
\<close>

fun jlog10 :: "jsnum \<Rightarrow> jsnum" where
  "jlog10 (Num a) = (if 0 < a then Num (log 10 a) else NaN)"
| "jlog10 NaN = NaN"

text \<open>Reading \<open>a[i]\<close> from a typed array as a number: NaN outside the array.\<close>

definition f32get :: "jsnum list \<Rightarrow> nat \<Rightarrow> jsnum" where
  "f32get a i = (if i < length a then a ! i else NaN)"

text \<open>
  \<open>for (i = 0; i < n; i++) a[i] = f(i)\<close> on a typed array: a store outside the array is
  dropped, as \<open>list_update\<close> does. A loop \<open>for (i = 0; i < N / 2; i++)\<close> runs
  \<open>halfCeil N\<close> times, while \<open>new Float32Array(N / 2)\<close> has \<open>N div 2\<close> cells.
\<close>

definition fillLoop :: "nat \<Rightarrow> (nat \<Rightarrow> 'a) \<Rightarrow> 'a list \<Rightarrow> 'a list" where
  "fillLoop n f a = fold (\<lambda>i a. a[i := f i]) [0..<n] a"

definition halfCeil :: "nat \<Rightarrow> nat" where
  "halfCeil N = (N + 1) div 2"

text \<open>\<open>fft\<close> (lines 237--275): the split into even and odd samples (lines 244--250).\<close>

definition fftEven :: "jsnum list \<Rightarrow> jsnum list" where
  "fftEven input =
     (let N = length input
      in fillLoop (halfCeil N) (\<lambda>i. f32get input (i * 2)) (replicate (N div 2) (Num 0)))"

definition fftOdd :: "jsnum list \<Rightarrow> jsnum list" where
  "fftOdd input =
     (let N = length input
      in fillLoop (halfCeil N) (\<lambda>i. f32get input (i * 2 + 1)) (replicate (N div 2) (Num 0)))"

text \<open>
  The butterfly loop (lines 255--272). The index \<open>(k + N / 2) * 2\<close> of the source is
  \<open>k * 2 + N\<close>.
\<close>

definition fftButterfly :: "nat \<Rightarrow> jsnum list \<Rightarrow> jsnum list \<Rightarrow> nat \<Rightarrow> jsnum list \<Rightarrow> jsnum list" where
  "fftButterfly N evenFFT oddFFT k output =
     (let angle = (- 2 * pi * real k) / real N;
          c = cos angle;
          s = sin angle;
          oddReal = f32get oddFFT (k * 2);
          oddImag = f32get oddFFT (k * 2 + 1);
          tReal = jsub (jmul (Num c) oddReal) (jmul (Num s) oddImag);
          tImag = jadd (jmul (Num s) oddReal) (jmul (Num c) oddImag)
      in output
           [k * 2 := jadd (f32get evenFFT (k * 2)) tReal,
            k * 2 + 1 := jadd (f32get evenFFT (k * 2 + 1)) tImag,
            k * 2 + N := jsub (f32get evenFFT (k * 2)) tReal,
            k * 2 + N + 1 := jsub (f32get evenFFT (k * 2 + 1)) tImag])"

definition fftCombine :: "nat \<Rightarrow> jsnum list \<Rightarrow> jsnum list \<Rightarrow> jsnum list" where
  "fftCombine N evenFFT oddFFT =
     fold (fftButterfly N evenFFT oddFFT) [0..<halfCeil N] (replicate (N * 2) (Num 0))"

function fft :: "jsnum list \<Rightarrow> jsnum list" where
  "fft input =
     (if length input \<le> 1 then [f32get input 0, Num 0]
      else fftCombine (length input) (fft (fftEven input)) (fft (fftOdd input)))"
  by pat_completeness auto
termination
proof -
  have fill: "length (fold (\<lambda>i a. a[i := f i]) ks a) = length a"
    for f :: "nat \<Rightarrow> jsnum" and ks a
    by (induction ks arbitrary: a) simp_all
  show ?thesis
    by (relation "measure length")
       (auto simp: fftEven_def fftOdd_def fillLoop_def Let_def fill)
qed

declare fft.simps [simp del]

text \<open>
  The Hann window value of line 214. For \<open>fftSize = 1\<close> the quotient is \<open>0 / 0\<close>.
\<close>

definition hannValue :: "nat \<Rightarrow> nat \<Rightarrow> jsnum" where
  "hannValue fftSize i =
     (if real fftSize - 1 = 0 then NaN
      else Num (0.5 * (1 - cos ((2 * pi * real i) / (real fftSize - 1)))))"

text \<open>
  Lines 194--229 of \<open>getFrequencySpectrumForTimeWindow\<close>: the resampling loop (a read of
  \<open>channelData\<close> at a negative index gives NaN), the window loop, the transform and the
  magnitudes.
\<close>

definition readSample :: "real list \<Rightarrow> int \<Rightarrow> jsnum" where
  "readSample chan sampleIndex =
     (if 0 \<le> sampleIndex \<and> sampleIndex < int (length chan) then Num (chan ! nat sampleIndex)
      else NaN)"

definition pickStep :: "real list \<Rightarrow> int \<Rightarrow> real \<Rightarrow> nat \<Rightarrow> jsnum list \<Rightarrow> jsnum list" where
  "pickStep chan startSample samplesPerPixel i audioWindow =
     (let sampleIndex = startSample + \<lfloor>real i * samplesPerPixel\<rfloor>
      in if sampleIndex < int (length chan)
         then audioWindow[i := readSample chan sampleIndex]
         else audioWindow)"

definition hannStep :: "nat \<Rightarrow> nat \<Rightarrow> jsnum list \<Rightarrow> jsnum list" where
  "hannStep fftSize i audioWindow =
     (let windowValue = hannValue fftSize i
      in audioWindow[i := jmul (f32get audioWindow i) windowValue])"

definition magnitudeAt :: "jsnum list \<Rightarrow> nat \<Rightarrow> jsnum" where
  "magnitudeAt spectrum i =
     (let re = f32get spectrum (i * 2);
          im = f32get spectrum (i * 2 + 1)
      in jsqrt (jadd (jmul re re) (jmul im im)))"

definition extractSpectrum :: "real list \<Rightarrow> int \<Rightarrow> int \<Rightarrow> nat \<Rightarrow> jsnum list" where
  "extractSpectrum chan startSample endSample fftSize =
     (let totalSamples = endSample - startSample in
      if totalSamples < int fftSize then replicate (fftSize div 2) (Num 0)
      else
        let samplesPerPixel = real_of_int totalSamples / real fftSize;
            picked = fold (pickStep chan startSample samplesPerPixel) [0..<fftSize]
                       (replicate fftSize (Num 0));
            audioWindow = fold (hannStep fftSize) [0..<fftSize] picked;
            spectrum = fft audioWindow
        in fillLoop (halfCeil fftSize) (magnitudeAt spectrum) (replicate (fftSize div 2) (Num 0)))"

text \<open>\<open>getFrequencySpectrumForTimeWindow\<close> (lines 171--230).\<close>

definition getFrequencySpectrumForTimeWindow ::
  "AudioTrack \<Rightarrow> real \<Rightarrow> real \<Rightarrow> nat \<Rightarrow> error + jsnum list" where
  "getFrequencySpectrumForTimeWindow tr currentTime windowDuration fftSize =
     (case getChannelData (buffer tr) 0 of
        Inl e \<Rightarrow> Inl e
      | Inr chan \<Rightarrow>
         (let (startTime, endTime) =
                (if currentTime < windowDuration
                 then (0, min windowDuration (duration (buffer tr)))
                 else (dsub currentTime windowDuration, currentTime));
              startSample = \<lfloor>dmul startTime (sampleRate (buffer tr))\<rfloor>;
              endSample = min \<lfloor>dmul endTime (sampleRate (buffer tr))\<rfloor> (int (length chan))
          in Inr (extractSpectrum chan startSample endSample fftSize)))"

section \<open>Compositor (\<open>src/rendering/WaveformRenderer.ts\<close>)\<close>

text \<open>
  \<open>RenderContext\<close>: the dimensions of the surface. A canvas has a whole, non-negative
  number of pixel columns and rows.
\<close>

record RenderDimensions =
  width :: nat
  height :: nat
  centerY :: real
  aspectRatio :: real

definition RenderContext :: "nat \<Rightarrow> nat \<Rightarrow> RenderDimensions" where
  "RenderContext w h =
     \<lparr>width = w, height = h, centerY = real h / 2, aspectRatio = 16 / 9\<rparr>"

definition forExport :: RenderDimensions where
  "forExport = RenderContext 1920 1080"

definition heightPercentToPixels :: "RenderDimensions \<Rightarrow> real \<Rightarrow> real" where
  "heightPercentToPixels dims percent = (percent / 100) * real (height dims)"

datatype AmplitudeMode = Individual | Normalized

text \<open>
  What a renderer draws is kept as the list of its stroked paths, in drawing order. A path
  is a list of vertical lines \<open>moveTo(x, y_start); lineTo(x, y_end)\<close>; the stroke style is
  the pair of arguments given to \<open>ColorManager.hexToRgba\<close>.
\<close>

record Line =
  line_x :: nat
  y_start :: real
  y_end :: real

record Stroke =
  strokeStyle :: "string \<times> real"
  lineWidth :: nat
  path :: "Line list"

text \<open>\<open>calculateGlobalMaxAmplitude\<close> (lines 99--121).\<close>

definition maxStep :: "real \<Rightarrow> real \<Rightarrow> real" where
  "maxStep v globalMax = (if v > globalMax then v else globalMax)"

fun globalMaxLoop :: "nat \<Rightarrow> real \<Rightarrow> real \<Rightarrow> AudioTrack list \<Rightarrow> real \<Rightarrow> error + real" where
  "globalMaxLoop w currentTime windowDuration [] globalMax = Inr globalMax"
| "globalMaxLoop w currentTime windowDuration (track # rest) globalMax =
     (case getWaveformDataForTimeWindow track currentTime windowDuration w 0 of
        Inl e \<Rightarrow> Inl e
      | Inr waveformData \<Rightarrow>
          globalMaxLoop w currentTime windowDuration rest (fold maxStep waveformData globalMax))"

definition calculateGlobalMaxAmplitude ::
  "RenderDimensions \<Rightarrow> AudioTrack list \<Rightarrow> real \<Rightarrow> real \<Rightarrow> error + real" where
  "calculateGlobalMaxAmplitude dims tracks currentTime windowDuration =
     (case globalMaxLoop (width dims) currentTime windowDuration tracks 0 of
        Inl e \<Rightarrow> Inl e
      | Inr globalMax \<Rightarrow> Inr (if globalMax > 0 then globalMax else 1.0))"

text \<open>The progressive-reveal bound \<open>maxX\<close> (lines 157--165 and 248--255).\<close>

definition revealMaxX :: "RenderDimensions \<Rightarrow> real \<Rightarrow> real \<Rightarrow> int" where
  "revealMaxX dims currentTime windowDuration =
     (if currentTime < windowDuration
      then \<lfloor>dmul (ddiv currentTime windowDuration) (real (width dims))\<rfloor>
      else int (width dims))"

text \<open>\<open>renderTrackRealtimeWithAmplitude\<close> (lines 126--183).\<close>

definition normalizeAmplitude :: "AmplitudeMode \<Rightarrow> real \<Rightarrow> real \<Rightarrow> real" where
  "normalizeAmplitude amplitudeMode globalMaxAmplitude amplitude =
     (if amplitudeMode = Normalized \<and> globalMaxAmplitude > 0
      then amplitude / globalMaxAmplitude else amplitude)"

definition trackLine :: "real list \<Rightarrow> real \<Rightarrow> real \<Rightarrow> AmplitudeMode \<Rightarrow> real \<Rightarrow> nat \<Rightarrow> Line" where
  "trackLine waveformData centerY' maxAmplitude amplitudeMode globalMaxAmplitude x =
     (let amplitude = normalizeAmplitude amplitudeMode globalMaxAmplitude (waveformData ! x);
          y = amplitude * maxAmplitude
      in \<lparr>line_x = x, y_start = centerY' - y, y_end = centerY' + y\<rparr>)"

definition renderTrackRealtimeWithAmplitude ::
  "RenderDimensions \<Rightarrow> AudioTrack \<Rightarrow> real \<Rightarrow> real \<Rightarrow> real \<Rightarrow> AmplitudeMode \<Rightarrow> real \<Rightarrow> nat \<Rightarrow> real
     \<Rightarrow> error + Stroke" where
  "renderTrackRealtimeWithAmplitude dims track currentTime centerY' maxAmplitude amplitudeMode
       globalMaxAmplitude smoothingLevel windowDuration =
     (case getWaveformDataForTimeWindow track currentTime windowDuration (width dims)
             smoothingLevel of
        Inl e \<Rightarrow> Inl e
      | Inr waveformData \<Rightarrow>
         (let maxX = revealMaxX dims currentTime windowDuration;
              columns = [0..<nat (min maxX (int (length waveformData)))]
          in Inr \<lparr>strokeStyle = (color track, opacity track), lineWidth = 2,
                  path = map (trackLine waveformData centerY' maxAmplitude amplitudeMode
                                globalMaxAmplitude) columns\<rparr>))"

text \<open>
  \<open>renderTracksAdditive\<close> (lines 225--329). \<open>waveformDataArray[i][x] || 0\<close> is 0 for a
  missing or zero entry. The two stacking loops keep the running \<open>currentY\<close>.
\<close>

fun collect :: "(error + 'a) list \<Rightarrow> error + 'a list" where
  "collect [] = Inr []"
| "collect (r # rs) =
     (case r of
        Inl e \<Rightarrow> Inl e
      | Inr v \<Rightarrow> (case collect rs of Inl e \<Rightarrow> Inl e | Inr vs \<Rightarrow> Inr (v # vs)))"

definition columnAmplitudes :: "real list list \<Rightarrow> nat \<Rightarrow> AmplitudeMode \<Rightarrow> real \<Rightarrow> real list" where
  "columnAmplitudes waveformDataArray x amplitudeMode globalMaxAmplitude =
     map (\<lambda>waveformData.
            normalizeAmplitude amplitudeMode globalMaxAmplitude
              (if x < length waveformData then waveformData ! x else 0))
         waveformDataArray"

fun stackUpper :: "nat \<Rightarrow> real \<Rightarrow> real \<Rightarrow> (AudioTrack \<times> real) list \<Rightarrow> real \<Rightarrow> Stroke list" where
  "stackUpper x scaleFactor maxAmplitude [] currentY = []"
| "stackUpper x scaleFactor maxAmplitude ((track, amplitude) # rest) currentY =
     (let scaledAmplitude = amplitude * scaleFactor;
          segmentHeight = scaledAmplitude * maxAmplitude
      in if segmentHeight > 0.5
         then (let yStart = currentY;
                   yEnd = currentY - segmentHeight
               in \<lparr>strokeStyle = (color track, opacity track), lineWidth = 1,
                    path = [\<lparr>line_x = x, y_start = yStart, y_end = yEnd\<rparr>]\<rparr>
                  # stackUpper x scaleFactor maxAmplitude rest yEnd)
         else stackUpper x scaleFactor maxAmplitude rest currentY)"

fun stackLower :: "nat \<Rightarrow> real \<Rightarrow> real \<Rightarrow> (AudioTrack \<times> real) list \<Rightarrow> real \<Rightarrow> Stroke list" where
  "stackLower x scaleFactor maxAmplitude [] currentY = []"
| "stackLower x scaleFactor maxAmplitude ((track, amplitude) # rest) currentY =
     (let scaledAmplitude = amplitude * scaleFactor;
          segmentHeight = scaledAmplitude * maxAmplitude
      in if segmentHeight > 0.5
         then (let yStart = currentY;
                   yEnd = currentY + segmentHeight
               in \<lparr>strokeStyle = (color track, opacity track), lineWidth = 1,
                    path = [\<lparr>line_x = x, y_start = yStart, y_end = yEnd\<rparr>]\<rparr>
                  # stackLower x scaleFactor maxAmplitude rest yEnd)
         else stackLower x scaleFactor maxAmplitude rest currentY)"

definition additiveScaleFactor :: "real list \<Rightarrow> real" where
  "additiveScaleFactor amplitudes =
     (let totalAmplitude = fold (\<lambda>a sum. sum + a) amplitudes 0
      in if totalAmplitude > 1.0 then 1.0 / totalAmplitude else 1.0)"

definition additiveColumn ::
  "AudioTrack list \<Rightarrow> real list list \<Rightarrow> real \<Rightarrow> real \<Rightarrow> AmplitudeMode \<Rightarrow> real \<Rightarrow> nat \<Rightarrow> Stroke list" where
  "additiveColumn tracks waveformDataArray centerY' maxAmplitude amplitudeMode globalMaxAmplitude x =
     (let amplitudes = columnAmplitudes waveformDataArray x amplitudeMode globalMaxAmplitude;
          scaleFactor = additiveScaleFactor amplitudes
      in stackUpper x scaleFactor maxAmplitude (zip tracks amplitudes) centerY'
         @ stackLower x scaleFactor maxAmplitude (zip tracks amplitudes) centerY')"

definition renderTracksAdditive ::
  "RenderDimensions \<Rightarrow> AudioTrack list \<Rightarrow> real \<Rightarrow> real \<Rightarrow> real \<Rightarrow> AmplitudeMode \<Rightarrow> real \<Rightarrow> nat
     \<Rightarrow> real \<Rightarrow> error + Stroke list" where
  "renderTracksAdditive dims tracks currentTime centerY' maxAmplitude amplitudeMode
       globalMaxAmplitude smoothingLevel windowDuration =
     (case collect (map (\<lambda>track. getWaveformDataForTimeWindow track currentTime windowDuration
                                   (width dims) smoothingLevel) tracks) of
        Inl e \<Rightarrow> Inl e
      | Inr waveformDataArray \<Rightarrow>
         (let maxX = revealMaxX dims currentTime windowDuration;
              columns = [0..<nat (min maxX (int (width dims)))]
          in Inr (concat (map (additiveColumn tracks waveformDataArray centerY' maxAmplitude
                                 amplitudeMode globalMaxAmplitude) columns))))"

text \<open>
  \<open>renderTracksStacked\<close> (lines 188--220): \<open>tracks.forEach((track, index) => ...)\<close>, each
  track around the middle of its band.
\<close>

definition forEachTrack :: "(nat \<Rightarrow> AudioTrack \<Rightarrow> error + 'a) \<Rightarrow> AudioTrack list \<Rightarrow> error + 'a list" where
  "forEachTrack f tracks =
     collect (map (\<lambda>(index, track). f index track) (zip [0..<length tracks] tracks))"

definition renderTracksStacked ::
  "RenderDimensions \<Rightarrow> AudioTrack list \<Rightarrow> real \<Rightarrow> AmplitudeMode \<Rightarrow> real \<Rightarrow> real \<Rightarrow> nat \<Rightarrow> real
     \<Rightarrow> error + Stroke list" where
  "renderTracksStacked dims tracks currentTime amplitudeMode globalMaxAmplitude heightPercent
       smoothingLevel windowDuration =
     (let numTracks = length tracks;
          trackHeight = real (height dims) / real numTracks
      in forEachTrack (\<lambda>index track.
           (let centerY' = (real index + 0.5) * trackHeight;
                maxAmplitude = heightPercentToPixels dims heightPercent / 2
            in renderTrackRealtimeWithAmplitude dims track currentTime centerY' maxAmplitude
                 amplitudeMode globalMaxAmplitude smoothingLevel windowDuration))
         tracks)"

text \<open>
  \<open>renderTrackSpectrum\<close> (lines 372--408) and the two spectrum layouts (lines 334--367). A
  bar is the line \<open>moveTo(x, baseY); lineTo(x, baseY - barHeight)\<close>; its \<open>x\<close> is not a whole
  column, and its height is a \<open>jsnum\<close> as the magnitudes are. There is no \<open>maxX\<close> here.
\<close>

record Bar =
  bar_x :: real
  bar_base :: real
  bar_top :: jsnum

record BarStroke =
  barStyle :: "string \<times> real"
  barLineWidth :: nat
  bars :: "Bar list"

definition spectrumBar :: "jsnum list \<Rightarrow> real \<Rightarrow> real \<Rightarrow> real \<Rightarrow> nat \<Rightarrow> Bar" where
  "spectrumBar spectrumData barWidth maxBarHeight baseY i =
     (let magnitude = f32get spectrumData i;
          barHeight = jmul (jlog10 (jadd (Num 1) (jmul magnitude (Num 100)))) (Num maxBarHeight);
          x = real i * barWidth
      in \<lparr>bar_x = x, bar_base = baseY, bar_top = jsub (Num baseY) barHeight\<rparr>)"

definition renderTrackSpectrum ::
  "RenderDimensions \<Rightarrow> AudioTrack \<Rightarrow> real \<Rightarrow> real \<Rightarrow> real \<Rightarrow> real \<Rightarrow> error + BarStroke" where
  "renderTrackSpectrum dims track currentTime baseY heightPercent windowDuration =
     (case getFrequencySpectrumForTimeWindow track currentTime windowDuration 2048 of
        Inl e \<Rightarrow> Inl e
      | Inr spectrumData \<Rightarrow>
         (let numBins = length spectrumData;
              barWidth = real (width dims) / real numBins;
              maxBarHeight = heightPercentToPixels dims heightPercent
          in Inr \<lparr>barStyle = (color track, opacity track), barLineWidth = 2,
                  bars = map (spectrumBar spectrumData barWidth maxBarHeight baseY)
                           [0..<numBins]\<rparr>))"

definition renderTracksSpectrumOverlay ::
  "RenderDimensions \<Rightarrow> AudioTrack list \<Rightarrow> real \<Rightarrow> real \<Rightarrow> real \<Rightarrow> error + BarStroke list" where
  "renderTracksSpectrumOverlay dims tracks currentTime heightPercent windowDuration =
     (let baseY = real (height dims)
      in forEachTrack (\<lambda>index track.
           renderTrackSpectrum dims track currentTime baseY heightPercent windowDuration)
         tracks)"

definition renderTracksSpectrumStacked ::
  "RenderDimensions \<Rightarrow> AudioTrack list \<Rightarrow> real \<Rightarrow> real \<Rightarrow> real \<Rightarrow> error + BarStroke list" where
  "renderTracksSpectrumStacked dims tracks currentTime heightPercent windowDuration =
     (let numTracks = length tracks;
          trackHeight = real (height dims) / real numTracks
      in forEachTrack (\<lambda>index track.
           (let baseY = (real index + 1) * trackHeight
            in renderTrackSpectrum dims track currentTime baseY heightPercent windowDuration))
         tracks)"

text \<open>
  Text drawn with \<open>fillText\<close>, with the context properties set for it, and the commands a
  frame consists of, in drawing order.
\<close>

record Label =
  fillStyle :: string
  font :: string
  textAlign :: string
  textBaseline :: string
  label_text :: string
  label_x :: real
  label_y :: real

datatype command =
    FillRect string real real real real
  | StrokePath Stroke
  | StrokeBars BarStroke
  | FillText Label

text \<open>
  \<open>renderTimeIndicator\<close> (lines 413--448). The playhead position of lines 420--427 is
  computed and never used (the line it positioned is commented out); what is drawn is the
  label \<open>mm:ss\<close> at the bottom right. \<open>%\<close> is the exact remainder of the truncating
  division; \<open>toString\<close> of a whole number is its decimal numeral (below \<open>10^21\<close>).
\<close>

definition jsRemainder :: "real \<Rightarrow> real \<Rightarrow> real" where
  "jsRemainder x y =
     x - y * of_int (if 0 \<le> x / y then \<lfloor>x / y\<rfloor> else \<lceil>x / y\<rceil>)"

fun digits :: "nat \<Rightarrow> string" where
  "digits n =
     (if n < 10 then [''0123456789'' ! n]
      else digits (n div 10) @ [''0123456789'' ! (n mod 10)])"

declare digits.simps [simp del]

definition toString :: "int \<Rightarrow> string" where
  "toString n = (if n < 0 then CHR ''-'' # digits (nat (- n)) else digits (nat n))"

definition padStart :: "string \<Rightarrow> nat \<Rightarrow> char \<Rightarrow> string" where
  "padStart str targetLength c = replicate (targetLength - length str) c @ str"

definition renderTimeIndicator :: "RenderDimensions \<Rightarrow> real \<Rightarrow> real \<Rightarrow> command" where
  "renderTimeIndicator dims currentTime windowDuration =
     (let mins = \<lfloor>ddiv currentTime 60\<rfloor>;
          secs = \<lfloor>jsRemainder currentTime 60\<rfloor>;
          timeStr = padStart (toString mins) 2 CHR ''0'' @ '':''
                      @ padStart (toString secs) 2 CHR ''0''
      in FillText \<lparr>fillStyle = ''#FFFFFF'', font = ''14px monospace'', textAlign = ''right'',
                    textBaseline = ''bottom'', label_text = timeStr,
                    label_x = real (width dims) - 10, label_y = real (height dims) - 10\<rparr>)"

text \<open>\<open>renderEmptyState\<close> (lines 453--461).\<close>

definition renderEmptyState :: "RenderDimensions \<Rightarrow> command" where
  "renderEmptyState dims =
     FillText \<lparr>fillStyle = ''#666666'', font = ''20px Arial'', textAlign = ''center'',
               textBaseline = ''middle'', label_text = ''Add audio tracks to begin'',
               label_x = real (width dims) / 2, label_y = real (height dims) / 2\<rparr>"

text \<open>
  \<open>render\<close> (lines 20--94). The canvas is cleared over its own size, given as
  \<open>canvas = (width, height)\<close>; the parameter \<open>duration\<close> is not used by the source. An
  exception of an extraction ends the frame.
\<close>

datatype LayoutMode = Overlay | OverlayAdditive | Stacked | SpectrumOverlay | SpectrumStacked

definition render ::
  "nat \<times> nat \<Rightarrow> RenderDimensions \<Rightarrow> AudioTrack list \<Rightarrow> real \<Rightarrow> real \<Rightarrow> LayoutMode \<Rightarrow> AmplitudeMode
     \<Rightarrow> real \<Rightarrow> nat \<Rightarrow> real \<Rightarrow> error + command list" where
  "render canvas dims tracks currentTime duration' layout amplitudeMode heightPercent
       smoothingLevel windowDuration =
     (let background = FillRect ''#000000'' 0 0 (real (fst canvas)) (real (snd canvas))
      in if length tracks = 0 then Inr [background, renderEmptyState dims]
         else
           case (if amplitudeMode = Normalized \<and> length tracks > 0
                 then calculateGlobalMaxAmplitude dims tracks currentTime windowDuration
                 else Inr 1.0) of
             Inl e \<Rightarrow> Inl e
           | Inr globalMaxAmplitude \<Rightarrow>
              (case (if layout = Stacked
                     then map_sum id (map StrokePath)
                            (renderTracksStacked dims tracks currentTime amplitudeMode
                               globalMaxAmplitude heightPercent smoothingLevel windowDuration)
                     else if layout = OverlayAdditive
                     then (let centerY' = centerY dims;
                               maxAmplitude = heightPercentToPixels dims heightPercent
                           in map_sum id (map StrokePath)
                                (renderTracksAdditive dims tracks currentTime centerY' maxAmplitude
                                   amplitudeMode globalMaxAmplitude smoothingLevel windowDuration))
                     else if layout = SpectrumOverlay
                     then map_sum id (map StrokeBars)
                            (renderTracksSpectrumOverlay dims tracks currentTime heightPercent
                               windowDuration)
                     else if layout = SpectrumStacked
                     then map_sum id (map StrokeBars)
                            (renderTracksSpectrumStacked dims tracks currentTime heightPercent
                               windowDuration)
                     else (let centerY' = centerY dims;
                               maxAmplitude = heightPercentToPixels dims heightPercent
                           in map_sum id (map StrokePath)
                                (forEachTrack (\<lambda>index track.
                                   renderTrackRealtimeWithAmplitude dims track currentTime centerY'
                                     maxAmplitude amplitudeMode globalMaxAmplitude smoothingLevel
                                     windowDuration)
                                 tracks))) of
                 Inl e \<Rightarrow> Inl e
               | Inr drawn \<Rightarrow>
                   Inr (background # drawn
                        @ [renderTimeIndicator dims currentTime windowDuration])))"

section \<open>Offline frame driver (\<open>src/export/VideoExporter.ts\<close>)\<close>

text \<open>
  \<open>captureFrames\<close> (lines 159--202). The effects of the loop are kept as a trace: the call
  of the export renderer with its \<open>currentTime\<close>, the capture of the export canvas, and
  every tenth frame the progress report followed by the yield to the host. The renderer
  clears the canvas first, so the captured image is a function \<open>renderFrame\<close> of the time.
\<close>

datatype event = Render real | Capture | Progress real | Yield

function captureLoop ::
  "(real \<Rightarrow> 'img) \<Rightarrow> real \<Rightarrow> int \<Rightarrow> int \<Rightarrow> 'img list \<times> event list \<Rightarrow> 'img list \<times> event list" where
  "captureLoop renderFrame fps totalFrames i (frames, trace) =
     (if i < totalFrames
      then (let time = ddiv (real_of_int i) fps;
                dataURL = renderFrame time;
                reported = (if i mod 10 = 0
                            then [Progress (ddiv (real_of_int i) (real_of_int totalFrames)), Yield]
                            else [])
            in captureLoop renderFrame fps totalFrames (i + 1)
                 (frames @ [dataURL], trace @ [Render time, Capture] @ reported))
      else (frames, trace))"
  by pat_completeness auto
termination
  by (relation "measure (\<lambda>(renderFrame, fps, totalFrames, i, acc). nat (totalFrames - i))") auto

declare captureLoop.simps [simp del]

definition captureFrames :: "(real \<Rightarrow> 'img) \<Rightarrow> real \<Rightarrow> real \<Rightarrow> 'img list \<times> event list" where
  "captureFrames renderFrame duration' fps =
     (let totalFrames = \<lceil>dmul duration' fps\<rceil>
      in captureLoop renderFrame fps totalFrames 0 ([], []))"

section \<open>Audio mixer (\<open>cli/adapters/CLIAudioEngine.ts\<close>)\<close>

text \<open>
  The accumulators are \<open>Float32Array\<close>s; a channel read past its end gives NaN. The
  remaining NaN-aware operations of \<open>mixTracks\<close>:
\<close>

definition f32read :: "real list \<Rightarrow> nat \<Rightarrow> jsnum" where
  "f32read a i = (if i < length a then Num (a ! i) else NaN)"

fun jabs :: "jsnum \<Rightarrow> jsnum" where
  "jabs (Num a) = Num \<bar>a\<bar>"
| "jabs NaN = NaN"

fun jmax :: "jsnum \<Rightarrow> jsnum \<Rightarrow> jsnum" where
  "jmax (Num a) (Num b) = Num (max a b)"
| "jmax _ _ = NaN"

fun jgreater :: "jsnum \<Rightarrow> real \<Rightarrow> bool" where
  "jgreater (Num a) b = (a > b)"
| "jgreater NaN b = False"

text \<open>\<open>getDuration\<close> (lines 96--101).\<close>

definition getDuration :: "AudioTrack list \<Rightarrow> real" where
  "getDuration tracks =
     (if length tracks = 0 then 0
      else fold max (map (\<lambda>t. duration (buffer t)) (tl tracks)) (duration (buffer (hd tracks))))"

text \<open>The body of the loop over the tracks (lines 121--135).\<close>

definition mixSample ::
  "real list \<Rightarrow> real list \<Rightarrow> real \<Rightarrow> nat \<Rightarrow> jsnum list \<times> jsnum list \<Rightarrow> jsnum list \<times> jsnum list" where
  "mixSample channel0 channel1 gain i acc =
     ((fst acc)[i := jadd (f32get (fst acc) i) (jmul (f32read channel0 i) (Num gain))],
      (snd acc)[i := jadd (f32get (snd acc) i) (jmul (f32read channel1 i) (Num gain))])"

definition mixTrack ::
  "nat \<Rightarrow> AudioTrack \<Rightarrow> jsnum list \<times> jsnum list \<Rightarrow> error + jsnum list \<times> jsnum list" where
  "mixTrack numSamples track acc =
     (let trackSamples = buf_length (buffer track);
          numChannels = numberOfChannels (buffer track)
      in case getChannelData (buffer track) 0 of
           Inl e \<Rightarrow> Inl e
         | Inr channel0 \<Rightarrow>
            (case (if numChannels > 1 then getChannelData (buffer track) 1 else Inr channel0) of
               Inl e \<Rightarrow> Inl e
             | Inr channel1 \<Rightarrow>
                (let gain = opacity track
                 in Inr (fold (mixSample channel0 channel1 gain)
                           [0..<min trackSamples numSamples] acc))))"

fun mixAll ::
  "nat \<Rightarrow> AudioTrack list \<Rightarrow> jsnum list \<times> jsnum list \<Rightarrow> error + jsnum list \<times> jsnum list" where
  "mixAll numSamples [] acc = Inr acc"
| "mixAll numSamples (track # rest) acc =
     (case mixTrack numSamples track acc of
        Inl e \<Rightarrow> Inl e
      | Inr acc' \<Rightarrow> mixAll numSamples rest acc')"

text \<open>The peak scan (lines 138--141) and the normalization (lines 143--150).\<close>

definition peakScan :: "nat \<Rightarrow> jsnum list \<Rightarrow> jsnum list \<Rightarrow> jsnum" where
  "peakScan numSamples left right =
     fold (\<lambda>i maxAmplitude. jmax (jmax maxAmplitude (jabs (f32get left i))) (jabs (f32get right i)))
       [0..<numSamples] (Num 0)"

definition normalizeMix :: "nat \<Rightarrow> jsnum \<Rightarrow> jsnum list \<Rightarrow> jsnum list" where
  "normalizeMix numSamples normalizeGain a =
     fold (\<lambda>i a. a[i := jmul (f32get a i) normalizeGain]) [0..<numSamples] a"

text \<open>
  \<open>mixTracks\<close> (lines 107--153). \<open>new Float32Array(n)\<close> raises a RangeError for a negative
  length. The verbose log line is not modelled.
\<close>

definition mixTracks :: "AudioTrack list \<Rightarrow> error + jsnum list \<times> jsnum list \<times> real" where
  "mixTracks tracks =
     (if length tracks = 0 then Inl NoTracksToMix
      else
        let duration' = getDuration tracks;
            sampleRate' = sampleRate (buffer (hd tracks));
            numSamplesI = \<lceil>dmul duration' sampleRate'\<rceil>
        in if numSamplesI < 0 then Inl InvalidArrayLength
           else
             let numSamples = nat numSamplesI
             in case mixAll numSamples tracks
                       (replicate numSamples (Num 0), replicate numSamples (Num 0)) of
                  Inl e \<Rightarrow> Inl e
                | Inr (left, right) \<Rightarrow>
                   (let maxAmplitude = peakScan numSamples left right
                    in if jgreater maxAmplitude 1.0
                       then (case maxAmplitude of
                               Num m \<Rightarrow>
                                 (let normalizeGain = Num (1.0 / m)
                                  in Inr (normalizeMix numSamples normalizeGain left,
                                          normalizeMix numSamples normalizeGain right,
                                          sampleRate'))
                             | NaN \<Rightarrow> Inr (left, right, sampleRate'))
                       else Inr (left, right, sampleRate')))"

section \<open>Specification-level notions and example inputs\<close>

text \<open>
  The adaptive window of the specification, and the sample indices derived from it.
\<close>

definition adaptiveWindow :: "real \<Rightarrow> real \<Rightarrow> real \<Rightarrow> real \<times> real" where
  "adaptiveWindow currentTime windowDuration trackDuration =
     (if currentTime < windowDuration then (0, min windowDuration trackDuration)
      else (dsub currentTime windowDuration, currentTime))"

definition startSampleOf :: "AudioTrack \<Rightarrow> real \<Rightarrow> real \<Rightarrow> int" where
  "startSampleOf tr currentTime windowDuration =
     \<lfloor>dmul (fst (adaptiveWindow currentTime windowDuration (duration (buffer tr))))
        (sampleRate (buffer tr))\<rfloor>"

definition endSampleOf :: "AudioTrack \<Rightarrow> real \<Rightarrow> real \<Rightarrow> nat \<Rightarrow> int" where
  "endSampleOf tr currentTime windowDuration totalSamples =
     min \<lfloor>dmul (snd (adaptiveWindow currentTime windowDuration (duration (buffer tr))))
            (sampleRate (buffer tr))\<rfloor>
         (int totalSamples)"

text \<open>
  A one-channel track over given samples, as \<open>createMockAudioBuffer\<close> of
  \<open>core/__tests__/AudioTrack.test.ts\<close> builds it.
\<close>

definition mockTrack :: "real list \<Rightarrow> real \<Rightarrow> real \<Rightarrow> AudioTrack" where
  "mockTrack samples rate dur =
     \<lparr>track_id = ''track-1'', track_name = ''Test Track'',
      buffer = \<lparr>duration = dur, sampleRate = rate, numberOfChannels = 1,
                buf_length = length samples, channelData = [samples]\<rparr>,
      color = ''#FF0000'', opacity = 7 / 10\<rparr>"

text \<open>
  The part of a trace that concerns frames: the renderer calls and the captures; and the
  two events of frame \<open>i\<close>.
\<close>

definition isFrameEvent :: "event \<Rightarrow> bool" where
  "isFrameEvent ev = (case ev of Render t \<Rightarrow> True | Capture \<Rightarrow> True | _ \<Rightarrow> False)"

definition frameEvents :: "real \<Rightarrow> int \<Rightarrow> event list" where
  "frameEvents fps i = [Render (ddiv (real_of_int i) fps), Capture]"

text \<open>
  The pixel columns a stroked path touches; the first channel of a track; and the buffer
  an extraction returns for a track that has a first channel.
\<close>

definition columnsOf :: "Stroke \<Rightarrow> nat set" where
  "columnsOf st = line_x ` set (path st)"

definition channel0 :: "AudioTrack \<Rightarrow> real list" where
  "channel0 tr = hd (channelData (buffer tr))"

definition waveformOf :: "AudioTrack \<Rightarrow> real \<Rightarrow> real \<Rightarrow> nat \<Rightarrow> nat \<Rightarrow> real list" where
  "waveformOf tr ct wd w sl =
     extractPeaks (channel0 tr) (startSampleOf tr ct wd)
       (endSampleOf tr ct wd (length (channel0 tr))) w sl"

text \<open>
  The centered moving average of the specification: output \<open>i\<close> is the mean of the input
  over the in-bounds indices at distance at most \<open>level\<close> from \<open>i\<close>.
\<close>

definition neighbours :: "nat \<Rightarrow> nat \<Rightarrow> nat \<Rightarrow> nat set" where
  "neighbours n level i = {k. k < n \<and> i \<le> k + level \<and> k \<le> i + level}"

definition movingAverage :: "real list \<Rightarrow> nat \<Rightarrow> real list" where
  "movingAverage xs level =
     map (\<lambda>i. (\<Sum>k \<in> neighbours (length xs) level i. xs ! k)
                / real (card (neighbours (length xs) level i)))
         [0..<length xs]"

text \<open>
  \<open>calculateVariance\<close>, the helper of \<open>core/__tests__/AudioTrack.test.ts\<close> (lines
  322--325), and two sample buffers: a short one with two spikes and a falling ramp.
\<close>

definition calculateVariance :: "real list \<Rightarrow> real" where
  "calculateVariance data =
     (let mean = fold (\<lambda>v sum. sum + v) data 0 / real (length data)
      in fold (\<lambda>v sum. sum + (v - mean) ^ 2) data 0 / real (length data))"

definition spikes :: "real list" where
  "spikes = [0, 1, 0, 0, 1]"

definition ramp :: "real list" where
  "ramp = [3 / 4, 7 / 8, 13 / 16, 25 / 32, 3 / 4, 23 / 32, 11 / 16, 21 / 32, 5 / 8, 19 / 32,
           9 / 16, 17 / 32, 1 / 2, 15 / 32, 7 / 16, 13 / 32, 3 / 8, 11 / 32, 5 / 16, 9 / 32,
           1 / 4, 7 / 32, 3 / 16, 5 / 32, 1 / 8, 3 / 32, 1 / 16, 0, 1 / 8]"

definition rampSmoothed :: "real list" where
  "rampSmoothed = [13 / 16, 13 / 16, 79 / 96, 25 / 32, 3 / 4, 23 / 32, 11 / 16, 21 / 32, 5 / 8,
           19 / 32, 9 / 16, 17 / 32, 1 / 2, 15 / 32, 7 / 16, 13 / 32, 3 / 8, 11 / 32, 5 / 16,
           9 / 32, 1 / 4, 7 / 32, 3 / 16, 5 / 32, 1 / 8, 3 / 32, 5 / 96, 1 / 16, 1 / 16]"

text \<open>
  The length of the lines of a stroked path, and the total length of a stack of strokes.
\<close>

definition strokeLength :: "Stroke \<Rightarrow> real" where
  "strokeLength st = sum_list (map (\<lambda>l. \<bar>y_end l - y_start l\<bar>) (path st))"

definition stackedHeight :: "Stroke list \<Rightarrow> real" where
  "stackedHeight sts = sum_list (map strokeLength sts)"

text \<open>
  What \<open>loadTrack\<close> (\<open>CLIAudioEngine.ts\<close>, lines 34--45) guarantees of every track of
  the engine: at least one channel, duration, channel count and length derived from the
  decoded data, a positive sample rate, and channels of one length.
\<close>

definition loadedTrack :: "AudioTrack \<Rightarrow> bool" where
  "loadedTrack t =
     (let b = buffer t in
      channelData b \<noteq> []
      \<and> 0 < sampleRate b
      \<and> duration b = ddiv (real (length (channelData b ! 0))) (sampleRate b)
      \<and> numberOfChannels b = length (channelData b)
      \<and> buf_length b = length (channelData b ! 0)
      \<and> list_all (\<lambda>c. length c = length (channelData b ! 0)) (channelData b))"

text \<open>
  The specification of the mix: the channel feeding each side, a sample weighted by the
  gain (silence past the end of the channel), the sum over the tracks, and the peak
  absolute value across both sides.
\<close>

definition leftChannel :: "AudioTrack \<Rightarrow> real list" where
  "leftChannel t = channelData (buffer t) ! 0"

definition rightChannel :: "AudioTrack \<Rightarrow> real list" where
  "rightChannel t =
     (if numberOfChannels (buffer t) > 1 then channelData (buffer t) ! 1
      else channelData (buffer t) ! 0)"

definition weightedSample :: "real list \<Rightarrow> real \<Rightarrow> nat \<Rightarrow> real" where
  "weightedSample chan gain i = (if i < length chan then chan ! i * gain else 0)"

definition mixSum :: "(AudioTrack \<Rightarrow> real list) \<Rightarrow> AudioTrack list \<Rightarrow> nat \<Rightarrow> real list" where
  "mixSum chanOf tracks n =
     map (\<lambda>i. \<Sum>t\<leftarrow>tracks. weightedSample (chanOf t) (opacity t) i) [0..<n]"

definition peakOf :: "real list \<Rightarrow> real list \<Rightarrow> real" where
  "peakOf left right = Max (insert 0 (abs ` (set left \<union> set right)))"

text \<open>A track as \<open>loadTrack\<close> builds it from decoded channels.\<close>

definition cliTrack :: "real list list \<Rightarrow> real \<Rightarrow> real \<Rightarrow> AudioTrack" where
  "cliTrack channels rate gain =
     \<lparr>track_id = ''track_0'', track_name = ''a.wav'',
      buffer = \<lparr>duration = ddiv (real (length (channels ! 0))) rate, sampleRate = rate,
                numberOfChannels = length channels, buf_length = length (channels ! 0),
                channelData = channels\<rparr>,
      color = ''#FF6B6B'', opacity = gain\<rparr>"

text \<open>
  The textbook discrete Fourier transform of a real signal, \<open>X k = \<Sum>j. x j * exp (-2 pi i k j / N)\<close>,
  the even and odd samples of a signal, and the twiddle factor of the butterfly.
\<close>

definition dft :: "real list \<Rightarrow> nat \<Rightarrow> complex" where
  "dft xs k =
     (\<Sum>j<length xs. of_real (xs ! j) * cis (- 2 * pi * real k * real j / real (length xs)))"

definition evens :: "real list \<Rightarrow> real list" where
  "evens xs = map (\<lambda>i. xs ! (i * 2)) [0..<length xs div 2]"

definition odds :: "real list \<Rightarrow> real list" where
  "odds xs = map (\<lambda>i. xs ! (i * 2 + 1)) [0..<length xs div 2]"

definition twiddle :: "nat \<Rightarrow> nat \<Rightarrow> complex" where
  "twiddle N k = cis ((- 2 * pi * real k) / real N)"

text \<open>The transform laid out as the source returns it: \<open>[re 0, im 0, re 1, im 1, ...]\<close>.\<close>

definition interleaved :: "real list \<Rightarrow> jsnum list" where
  "interleaved xs =
     map (\<lambda>j. if even j then Num (Re (dft xs (j div 2))) else Num (Im (dft xs (j div 2))))
       [0..<2 * length xs]"

text \<open>
  The reference definition of the spectrum input: sample \<open>i\<close> of the resampled window is
  read at the index \<open>startSample + floor (i * totalSamples / fftSize)\<close>, without
  interpolation, and multiplied by the Hann window.
\<close>

definition pickedIndex :: "int \<Rightarrow> int \<Rightarrow> nat \<Rightarrow> nat \<Rightarrow> int" where
  "pickedIndex startSample endSample fftSize i =
     startSample + \<lfloor>real i * (real_of_int (endSample - startSample) / real fftSize)\<rfloor>"

definition resampled :: "real list \<Rightarrow> int \<Rightarrow> int \<Rightarrow> nat \<Rightarrow> real list" where
  "resampled chan startSample endSample fftSize =
     map (\<lambda>i. chan ! nat (pickedIndex startSample endSample fftSize i)) [0..<fftSize]"

definition hann :: "nat \<Rightarrow> nat \<Rightarrow> real" where
  "hann N i = 0.5 * (1 - cos (2 * pi * real i / (real N - 1)))"

definition windowed :: "real list \<Rightarrow> int \<Rightarrow> int \<Rightarrow> nat \<Rightarrow> real list" where
  "windowed chan startSample endSample fftSize =
     map (\<lambda>i. resampled chan startSample endSample fftSize ! i * hann fftSize i) [0..<fftSize]"

text \<open>Four samples of one period of a cosine.\<close>

definition tone :: "real list" where
  "tone = [1, 0, - 1, 0]"

text \<open>
  Bucket \<open>i\<close> of the downsampling, with the bounds the source computes (quotient and
  products in binary64), and the peak of channel 0 over a set of sample indices: the
  largest absolute value among the indices that exist, 0 when there is none.
\<close>

definition sampleBucket :: "int \<Rightarrow> int \<Rightarrow> nat \<Rightarrow> nat \<Rightarrow> int set" where
  "sampleBucket startSample endSample targetWidth i =
     {startSample
        + \<lfloor>dmul (real i) (ddiv (real_of_int (endSample - startSample)) (real targetWidth))\<rfloor>
      ..< min (startSample
                 + \<lfloor>dmul (real (i + 1))
                      (ddiv (real_of_int (endSample - startSample)) (real targetWidth))\<rfloor>)
              endSample}"

definition peakOver :: "real list \<Rightarrow> int set \<Rightarrow> real" where
  "peakOver chan B = Max (insert 0 ((\<lambda>j. \<bar>chan ! nat j\<bar>) ` (B \<inter> {0..<int (length chan)})))"

text \<open>
  Inputs on which rounding decides an index. \<open>thirdOfSecond\<close> is the binary64 number
  nearest to \<open>1/3\<close>, \<open>tenthOfSecond\<close> the one nearest to \<open>1/10\<close>; three samples at
  3 Hz; eight samples at 4 Hz; fifteen rising samples; seven samples for a 48 kHz file.
\<close>

definition thirdOfSecond :: real where
  "thirdOfSecond = 6004799503160661 / 18014398509481984"

definition tenthOfSecond :: real where
  "tenthOfSecond = 3602879701896397 / 36028797018963968"

definition shortTrack :: AudioTrack where
  "shortTrack = mockTrack [1 / 2, 1 / 4, 1 / 8] 3 1"

definition longTrack :: AudioTrack where
  "longTrack = mockTrack [1 / 2, 1 / 2, 1 / 2, 1 / 2, 0, 1, 0, 1 / 4] 4 2"

definition fifteen :: "real list" where
  "fifteen = [1 / 16, 1 / 8, 3 / 16, 1 / 4, 5 / 16, 3 / 8, 7 / 16, 1 / 2, 9 / 16, 5 / 8,
              11 / 16, 3 / 4, 13 / 16, 7 / 8, 15 / 16]"

definition sevenSamples :: "real list" where
  "sevenSamples = [1, 1 / 2, 1 / 4, 1 / 8, 1 / 16, 1 / 32, 1 / 64]"

text \<open>
  The columns revealed at \<open>currentTime\<close>: all of them once the window is full, before
  that the columns left of \<open>maxX = floor (currentTime / windowDuration * width)\<close>. The
  center line and the largest half-height of the band of track \<open>k\<close> in the overlay and
  stacked layouts; the heights of the segments of one column of the additive layout
  (amplitudes scaled down by their sum when it exceeds 1).
\<close>

definition revealedColumns :: "RenderDimensions \<Rightarrow> real \<Rightarrow> real \<Rightarrow> nat list" where
  "revealedColumns dims currentTime windowDuration =
     filter (\<lambda>x. currentTime < windowDuration \<longrightarrow>
                  int x < \<lfloor>dmul (ddiv currentTime windowDuration) (real (width dims))\<rfloor>)
       [0..<width dims]"

definition bandCenter :: "RenderDimensions \<Rightarrow> LayoutMode \<Rightarrow> nat \<Rightarrow> nat \<Rightarrow> real" where
  "bandCenter dims layout numTracks k =
     (if layout = Stacked then (real k + 1 / 2) * (real (height dims) / real numTracks)
      else centerY dims)"

definition bandAmplitude :: "RenderDimensions \<Rightarrow> LayoutMode \<Rightarrow> real \<Rightarrow> real" where
  "bandAmplitude dims layout heightPercent =
     (if layout = Stacked then heightPercent / 100 * real (height dims) / 2
      else heightPercent / 100 * real (height dims))"

definition segmentHeights ::
  "RenderDimensions \<Rightarrow> AudioTrack list \<Rightarrow> real \<Rightarrow> real \<Rightarrow> AmplitudeMode \<Rightarrow> real \<Rightarrow> real \<Rightarrow> nat \<Rightarrow> nat
     \<Rightarrow> real list" where
  "segmentHeights dims tracks ct wd mode gm hp sl x =
     (let amps = map (\<lambda>t. normalizeAmplitude mode gm (waveformOf t ct wd (width dims) sl ! x))
                   tracks;
          scale = (if 1 < sum_list amps then 1 / sum_list amps else 1)
      in map (\<lambda>a. a * scale * (hp / 100 * real (height dims))) amps)"

text \<open>
  The spectrum of a track at a time, the commands of a frame (none when the renderer
  throws) and the abscissae of the bars among them.
\<close>

definition spectrumOf :: "AudioTrack \<Rightarrow> real \<Rightarrow> real \<Rightarrow> nat \<Rightarrow> jsnum list" where
  "spectrumOf tr ct wd n =
     extractSpectrum (channel0 tr) (startSampleOf tr ct wd)
       (endSampleOf tr ct wd (length (channel0 tr))) n"

definition commandsOf :: "error + command list \<Rightarrow> command list" where
  "commandsOf r = (case r of Inl e \<Rightarrow> [] | Inr cs \<Rightarrow> cs)"

definition barColumns :: "command list \<Rightarrow> real list" where
  "barColumns cs =
     concat (map (\<lambda>c. case c of StrokeBars b \<Rightarrow> map bar_x (bars b) | _ \<Rightarrow> []) cs)"

section \<open>Auxiliary facts\<close>

subsection \<open>Rounding\<close>

lemma rne_of_int [simp]: "rne (of_int n) = n"
  by (simp add: rne_def)

lemma rne_0 [simp]: "rne 0 = 0"
  using rne_of_int [of 0] by simp

lemma rne_1 [simp]: "rne 1 = 1"
  using rne_of_int [of 1] by simp

lemma rne_numeral [simp]: "rne (numeral k) = numeral k"
  using rne_of_int [of "numeral k"] by simp

lemma rne_neg_numeral [simp]: "rne (- numeral k) = - numeral k"
  using rne_of_int [of "- numeral k"] by simp

lemma rne_bounds: "\<lfloor>x\<rfloor> \<le> rne x \<and> rne x \<le> \<lfloor>x\<rfloor> + 1"
  by (simp add: rne_def Let_def)

lemma rne_nonneg: "0 \<le> x \<Longrightarrow> 0 \<le> rne x"
  using rne_bounds [of x] by (simp add: order_trans [of 0 "\<lfloor>x\<rfloor>"])

lemma rne_nonpos: "x \<le> 0 \<Longrightarrow> rne x \<le> 0"
  by (auto simp: rne_def Let_def floor_less_iff le_floor_iff not_less)

lemma rne_error: "\<bar>of_int (rne x) - x\<bar> \<le> 1 / 2"
  unfolding rne_def Let_def by (auto simp: abs_if) linarith+

lemma fl_nonneg: "0 \<le> x \<Longrightarrow> 0 \<le> fl x"
  by (simp add: fl_def Let_def rne_nonneg)

lemma fl_nonpos: "x \<le> 0 \<Longrightarrow> fl x \<le> 0"
  by (simp add: fl_def Let_def rne_nonpos mult_le_0_iff divide_le_0_iff)

lemma fl_0 [simp]: "fl 0 = 0"
  by (simp add: fl_def)

lemma binade_bounds:
  assumes "x \<noteq> 0"
  shows "2 powi binade x \<le> \<bar>x\<bar>" and "\<bar>x\<bar> < 2 powi (binade x + 1)"
proof -
  have "2 powi binade x \<le> \<bar>x\<bar> \<and> \<bar>x\<bar> < 2 powi (binade x + 1)"
  proof (cases "1 \<le> \<bar>x\<bar>")
    case True
    define n where "n = \<lfloor>\<bar>x\<bar>\<rfloor>"
    have n1: "1 \<le> n" using True by (simp add: n_def le_floor_iff)
    then have n0: "0 < n" by simp
    define b where "b = nat (bitlen n - 1)"
    from bitlen_bounds [OF n0] have lo: "2 ^ b \<le> n" and hi: "n < 2 ^ nat (bitlen n)"
      by (simp_all add: b_def)
    have bl: "1 \<le> bitlen n"
      using n0 by (simp add: bitlen_alt_def)
    then have nb: "nat (bitlen n) = Suc b" and bb: "bitlen n - 1 = int b"
      by (simp_all add: b_def)
    have bin: "binade x = int b"
      using True by (simp add: binade_def n_def [symmetric] bb)
    have "real_of_int (2 ^ b) \<le> real_of_int n"
      using lo by (simp only: of_int_le_iff)
    also have "\<dots> \<le> \<bar>x\<bar>" by (simp add: n_def)
    finally have 1: "2 ^ b \<le> \<bar>x\<bar>" by simp
    have "n + 1 \<le> 2 ^ Suc b" using hi nb by simp
    then have "real_of_int (n + 1) \<le> real_of_int (2 ^ Suc b)"
      by (simp only: of_int_le_iff)
    moreover have "\<bar>x\<bar> < real_of_int (n + 1)"
      unfolding n_def by linarith
    ultimately have 2: "\<bar>x\<bar> < 2 ^ Suc b" by simp
    have p: "int b + 1 = int (Suc b)" by simp
    show ?thesis
      unfolding bin p power_int_of_nat using 1 2 by simp
  next
    case False
    define y where "y = 1 / \<bar>x\<bar>"
    have ax: "0 < \<bar>x\<bar>" "\<bar>x\<bar> < 1" using assms False by simp_all
    then have y1: "1 < y" by (simp add: y_def)
    define n where "n = \<lceil>y\<rceil> - 1"
    have ny: "real_of_int n < y" "y \<le> real_of_int n + 1"
      unfolding n_def by linarith+
    have n1: "1 \<le> n" using y1 ny by linarith
    then have n0: "0 < n" by simp
    define b where "b = nat (bitlen n - 1)"
    from bitlen_bounds [OF n0] have lo: "2 ^ b \<le> n" and hi: "n < 2 ^ nat (bitlen n)"
      by (simp_all add: b_def)
    have bl: "1 \<le> bitlen n"
      using n0 by (simp add: bitlen_alt_def)
    then have nb: "nat (bitlen n) = Suc b" and bb: "bitlen n = int (Suc b)"
      by (simp_all add: b_def)
    have bin: "binade x = - int (Suc b)"
      using False by (simp add: binade_def y_def [symmetric] n_def [symmetric] bb)
    have "n + 1 \<le> 2 ^ Suc b" using hi nb by simp
    then have "real_of_int (n + 1) \<le> real_of_int (2 ^ Suc b)"
      by (simp only: of_int_le_iff)
    then have "real_of_int n + 1 \<le> (2 :: real) ^ Suc b" by simp
    with ny(2) have yh: "y \<le> 2 ^ Suc b" by linarith
    have "real_of_int (2 ^ b) \<le> real_of_int n"
      using lo by (simp only: of_int_le_iff)
    then have "(2 :: real) ^ b \<le> real_of_int n" by simp
    with ny(1) have yl: "2 ^ b < y" by linarith
    have x: "\<bar>x\<bar> = 1 / y" using ax by (simp add: y_def)
    have y0: "0 < y" using y1 by simp
    have 1: "1 / 2 ^ Suc b \<le> \<bar>x\<bar>"
      unfolding x using yh y0 by (simp add: field_simps)
    have 2: "\<bar>x\<bar> < 1 / 2 ^ b"
      unfolding x using yl y0 by (simp add: field_simps)
    have p: "- int (Suc b) + 1 = - int b" by simp
    have e1: "(2 :: real) powi (- int (Suc b)) = 1 / 2 ^ Suc b"
      by (simp only: power_int_minus_divide power_int_of_nat)
    have e2: "(2 :: real) powi (- int b) = 1 / 2 ^ b"
      by (simp only: power_int_minus_divide power_int_of_nat)
    show ?thesis
      unfolding bin p e1 e2 using 1 2 by blast
  qed
  then show "2 powi binade x \<le> \<bar>x\<bar>" and "\<bar>x\<bar> < 2 powi (binade x + 1)"
    by simp_all
qed

lemma fl_exact:
  assumes x: "x = of_int m * 2 powi k" and m: "\<bar>m\<bar> < 9007199254740992" and k: "- 1074 \<le> k"
  shows "fl x = x"
proof (cases "x = 0")
  case True
  then show ?thesis by simp
next
  case False
  define q where "q = max (binade x - 52) (- 1074)"
  have m0: "m \<noteq> 0" using False x by auto
  have "\<bar>x\<bar> = of_int \<bar>m\<bar> * 2 powi k"
    by (simp add: x abs_mult)
  also have "\<dots> < 2 ^ 53 * 2 powi k"
  proof -
    have "real_of_int \<bar>m\<bar> < real_of_int 9007199254740992"
      using m by (simp only: of_int_less_iff)
    then show ?thesis by (intro mult_strict_right_mono) simp_all
  qed
  also have "\<dots> = 2 powi (53 + k)"
    by (simp add: power_int_add)
  finally have up: "\<bar>x\<bar> < 2 powi (53 + k)" .
  from binade_bounds(1) [OF False] up have "(2 :: real) powi binade x < 2 powi (53 + k)"
    by linarith
  have "binade x < 53 + k"
  proof (rule ccontr)
    assume "\<not> binade x < 53 + k"
    then have "53 + k \<le> binade x" by simp
    then have "(2 :: real) powi (53 + k) \<le> 2 powi binade x"
      by (intro power_int_increasing) simp_all
    with \<open>(2 :: real) powi binade x < 2 powi (53 + k)\<close> show False by simp
  qed
  then have qk: "q \<le> k"
    using k by (simp add: q_def)
  define d where "d = nat (k - q)"
  have kd: "k = q + int d" using qk by (simp add: d_def)
  have "x / 2 powi q = of_int m * 2 ^ d"
    unfolding x kd by (simp add: power_int_add)
  also have "\<dots> = of_int (m * 2 ^ d)" by simp
  finally have "rne (x / 2 powi q) = m * 2 ^ d"
    by (simp only: rne_of_int)
  then have "fl x = of_int (m * 2 ^ d) * 2 powi q"
    by (simp add: fl_def q_def [symmetric])
  also have "\<dots> = x"
    unfolding x kd by (simp add: power_int_add)
  finally show ?thesis .
qed

lemma fl_of_int:
  assumes "\<bar>n\<bar> \<le> 9007199254740992"
  shows "fl (of_int n) = of_int n"
proof (cases "\<bar>n\<bar> = 9007199254740992")
  case True
  then have n: "n = 9007199254740992 \<or> n = - 9007199254740992" by linarith
  then have "real_of_int n = of_int (n div 2) * 2 powi 1"
    by auto
  moreover have "\<bar>n div 2\<bar> < 9007199254740992"
    using n by auto
  ultimately show ?thesis
    by (intro fl_exact [where m = "n div 2" and k = 1]) simp_all
next
  case False
  with assms have "\<bar>n\<bar> < 9007199254740992" by simp
  then show ?thesis
    by (intro fl_exact [where m = n and k = 0]) simp_all
qed

lemma fl_of_nat: "n \<le> 9007199254740992 \<Longrightarrow> fl (real n) = real n"
  using fl_of_int [of "int n"] by simp

lemma fl_numeral [simp]:
  "numeral k \<le> (9007199254740992 :: int) \<Longrightarrow> fl (numeral k) = numeral k"
  using fl_of_int [of "numeral k"] by simp

lemma fl_1 [simp]: "fl 1 = 1"
  using fl_of_int [of 1] by simp

lemmas double_ops = dadd_def dsub_def dmul_def ddiv_def

lemmas fl_eval = fl_def binade_def rne_def compute_bitlen

lemma binade_normal:
  assumes "2 powi (- 1022) \<le> \<bar>x\<bar>"
  shows "- 1022 \<le> binade x"
proof (rule ccontr)
  assume "\<not> - 1022 \<le> binade x"
  then have "binade x + 1 \<le> - 1022" by simp
  then have "(2 :: real) powi (binade x + 1) \<le> 2 powi (- 1022)"
    by (intro power_int_increasing) simp_all
  moreover have "x \<noteq> 0"
    using assms by (auto simp: power_int_minus_divide)
  ultimately show False
    using binade_bounds(2) [of x] assms by linarith
qed

lemma fl_error:
  assumes "2 powi (- 1022) \<le> \<bar>x\<bar>"
  shows "\<bar>fl x - x\<bar> \<le> \<bar>x\<bar> * 2 powi (- 53)"
proof -
  have x0: "x \<noteq> 0"
    using assms by (auto simp: power_int_minus_divide)
  define q where "q = binade x - 52"
  have q: "max (binade x - 52) (- 1074) = q"
    using binade_normal [OF assms] by (simp add: q_def)
  define u :: real where "u = 2 powi q"
  have u0: "0 < u" by (simp add: u_def)
  have "fl x - x = (of_int (rne (x / u)) - x / u) * u"
    using u0 by (simp add: fl_def q u_def [symmetric] algebra_simps)
  then have "\<bar>fl x - x\<bar> = \<bar>of_int (rne (x / u)) - x / u\<bar> * u"
    using u0 by (simp add: abs_mult)
  also have "\<dots> \<le> 1 / 2 * u"
    using u0 rne_error [of "x / u"] by (intro mult_right_mono) simp_all
  also have "\<dots> = 2 powi binade x * 2 powi (- 53)"
  proof -
    have "q = binade x + (- 53 + 1)" by (simp add: q_def)
    then have "u = 2 powi (binade x + (- 53 + 1))"
      by (simp only: u_def)
    also have "\<dots> = 2 powi binade x * 2 powi (- 53 + 1)"
      by (rule power_int_add) simp
    also have "(2 :: real) powi (- 53 + 1) = 2 powi (- 53) * 2 powi 1"
      by (rule power_int_add) simp
    finally show ?thesis by simp
  qed
  also have "\<dots> \<le> \<bar>x\<bar> * 2 powi (- 53)"
    using binade_bounds(1) [OF x0] by (intro mult_right_mono) simp_all
  finally show ?thesis .
qed

lemma spectrum_pick_exact:
  assumes n: "n = 2 ^ m" and T: "0 \<le> T" "T * int n < 9007199254740992" and i: "i < n"
  shows "dmul (real i) (ddiv (real_of_int T) (real n)) = real i * (real_of_int T / real n)"
proof (cases "T = 0")
  case True
  then show ?thesis
    by (simp add: double_ops)
next
  case False
  with T(1) have Tpos: "1 \<le> T" by simp
  have npos: "1 \<le> int n" using n by simp
  have "int n = 1 * int n" by simp
  also have "\<dots> \<le> T * int n"
    using Tpos by (intro mult_right_mono) simp_all
  finally have nb: "int n < 9007199254740992"
    using T(2) by simp
  have m: "m < 53"
  proof (rule ccontr)
    assume "\<not> m < 53"
    then have "(2 :: int) ^ 53 \<le> 2 ^ m"
      by (intro power_increasing) simp_all
    with nb n show False
      by simp
  qed
  have "T = T * 1" by simp
  also have "\<dots> \<le> T * int n"
    using T(1) npos by (intro mult_left_mono) simp_all
  finally have Tb: "\<bar>T\<bar> < 9007199254740992"
    using T by simp
  have pw: "real n = 2 powi (int m)"
    by (simp add: n)
  have q: "real_of_int T / real n = of_int T * 2 powi (- int m)"
    by (simp add: pw power_int_minus field_simps)
  have km: "- 1074 \<le> - int m"
    using m by simp
  have d: "ddiv (real_of_int T) (real n) = real_of_int T / real n"
    unfolding ddiv_def by (rule fl_exact [OF q Tb km])
  have "int i * T \<le> int n * T"
    using i T(1) by (intro mult_right_mono) simp_all
  then have ib: "\<bar>int i * T\<bar> < 9007199254740992"
    using T by (simp add: mult.commute abs_mult)
  have p: "real i * (real_of_int T / real n) = of_int (int i * T) * 2 powi (- int m)"
    by (simp add: q)
  show ?thesis
    unfolding d dmul_def by (rule fl_exact [OF p ib km])
qed

subsection \<open>The extractions\<close>

lemma channel0_cases:
  "getChannelData b 0 =
     (if channelData b = [] then Inl ChannelOutOfRange else Inr (hd (channelData b)))"
  by (cases "channelData b") (simp_all add: getChannelData_def)

lemma waveform_unfold:
  assumes "getChannelData (buffer tr) 0 = Inr chan"
  shows "getWaveformDataForTimeWindow tr ct wd w sl =
           Inr (extractPeaks chan (startSampleOf tr ct wd)
                  (endSampleOf tr ct wd (length chan)) w sl)"
  using assms
  by (simp add: getWaveformDataForTimeWindow_def startSampleOf_def endSampleOf_def
        adaptiveWindow_def dsub_def dmul_def)

lemma spectrum_unfold:
  assumes "getChannelData (buffer tr) 0 = Inr chan"
  shows "getFrequencySpectrumForTimeWindow tr ct wd n =
           Inr (extractSpectrum chan (startSampleOf tr ct wd)
                  (endSampleOf tr ct wd (length chan)) n)"
  using assms
  by (simp add: getFrequencySpectrumForTimeWindow_def startSampleOf_def endSampleOf_def
        adaptiveWindow_def dsub_def dmul_def)

lemma length_applySmoothingFilter [simp]:
  "length (applySmoothingFilter wv l) = length wv"
  by (simp add: applySmoothingFilter_def)

lemma length_extractPeaks [simp]: "length (extractPeaks chan s e w sl) = w"
  by (simp add: extractPeaks_def ddiv_def dmul_def Let_def)

lemma length_fold_update: "length (fold (\<lambda>i a. a[i := f i a]) ks a) = length a"
  by (induction ks arbitrary: a) simp_all

lemma length_fillLoop [simp]: "length (fillLoop n f a) = length a"
  by (simp add: fillLoop_def length_fold_update)

lemma length_extractSpectrum [simp]: "length (extractSpectrum chan s e n) = n div 2"
  by (simp add: extractSpectrum_def Let_def)

lemma extractPeaks_degenerate:
  "e - s \<le> 0 \<Longrightarrow> extractPeaks chan s e w sl = replicate w 0"
  by (simp add: extractPeaks_def ddiv_def dmul_def)

lemma extractSpectrum_insufficient:
  "e - s < int n \<Longrightarrow> extractSpectrum chan s e n = replicate (n div 2) (Num 0)"
  by (simp add: extractSpectrum_def)

section \<open>Degenerate windows (C9)\<close>

text \<open>
  C9. For every track with a first channel and all times, both extractions return a
  buffer (they never raise): the waveform has length \<open>targetWidth\<close> and is all zero when
  \<open>endSample - startSample \<le> 0\<close>; the spectrum has length \<open>fftSize div 2\<close> and is all zero
  when the window holds fewer than \<open>fftSize\<close> samples.
\<close>

theorem insufficient_data_zero_fill:
  assumes "channelData (buffer tr) \<noteq> []"
  shows "\<exists>wv sp.
           getWaveformDataForTimeWindow tr ct wd w sl = Inr wv \<and> length wv = w
         \<and> (endSampleOf tr ct wd (length (hd (channelData (buffer tr))))
              - startSampleOf tr ct wd \<le> 0
              \<longrightarrow> wv = replicate w 0)
         \<and> getFrequencySpectrumForTimeWindow tr ct wd n = Inr sp \<and> length sp = n div 2
         \<and> (endSampleOf tr ct wd (length (hd (channelData (buffer tr))))
              - startSampleOf tr ct wd < int n
              \<longrightarrow> sp = replicate (n div 2) (Num 0))"
proof -
  have chan: "getChannelData (buffer tr) 0 = Inr (hd (channelData (buffer tr)))"
    using assms by (simp add: channel0_cases)
  show ?thesis
    by (simp add: waveform_unfold [OF chan] spectrum_unfold [OF chan]
          extractPeaks_degenerate extractSpectrum_insufficient)
qed

theorem insufficient_data_zero_fill_witness:
  "channelData (buffer (mockTrack [] 44100 0)) \<noteq> []
   \<and> endSampleOf (mockTrack [] 44100 0) 0 1
         (length (hd (channelData (buffer (mockTrack [] 44100 0)))))
       - startSampleOf (mockTrack [] 44100 0) 0 1 \<le> 0
   \<and> getWaveformDataForTimeWindow (mockTrack [] 44100 0) 0 1 3 0 = Inr (replicate 3 0)
   \<and> getFrequencySpectrumForTimeWindow (mockTrack [] 44100 0) 0 1 4
       = Inr (replicate (4 div 2) (Num 0))"
proof -
  have h: "channelData (buffer (mockTrack [] 44100 0)) \<noteq> []"
    by (simp add: mockTrack_def)
  have d: "endSampleOf (mockTrack [] 44100 0) 0 1
             (length (hd (channelData (buffer (mockTrack [] 44100 0)))))
           - startSampleOf (mockTrack [] 44100 0) 0 1 = 0"
    by (simp add: mockTrack_def endSampleOf_def startSampleOf_def adaptiveWindow_def dsub_def dmul_def)
  from insufficient_data_zero_fill [OF h, of 0 1 3 0 4] d h
  show ?thesis
    by auto
qed

section \<open>Peak-hold downsampling\<close>

lemma peakStep_max:
  "peakStep chan j m = (if 0 \<le> j \<and> j < int (length chan) then max m \<bar>chan ! nat j\<bar> else m)"
  by (simp add: peakStep_def Let_def max_def)

lemma Max_insert_max:
  fixes m :: "'a :: linorder"
  assumes "finite S"
  shows "Max (insert (max m a) S) = Max (insert m (insert a S))"
proof (cases "S = {}")
  case True
  then show ?thesis by simp
next
  case False
  with assms show ?thesis by (simp add: max.assoc)
qed

lemma fold_peakStep:
  "fold (peakStep chan) js m =
     Max (insert m ((\<lambda>j. \<bar>chan ! nat j\<bar>) ` {j \<in> set js. 0 \<le> j \<and> j < int (length chan)}))"
proof (induction js arbitrary: m)
  case Nil
  then show ?case by simp
next
  case (Cons j js)
  let ?f = "\<lambda>j. \<bar>chan ! nat j\<bar>"
  let ?S = "?f ` {j \<in> set js. 0 \<le> j \<and> j < int (length chan)}"
  have fin: "finite ?S" by simp
  show ?case
  proof (cases "0 \<le> j \<and> j < int (length chan)")
    case True
    then have set_eq: "?f ` {j' \<in> set (j # js). 0 \<le> j' \<and> j' < int (length chan)} = insert (?f j) ?S"
      by auto
    have "fold (peakStep chan) (j # js) m = Max (insert (max m (?f j)) ?S)"
      using True by (simp add: Cons.IH peakStep_max)
    also have "\<dots> = Max (insert m (insert (?f j) ?S))"
      using fin by (rule Max_insert_max)
    finally show ?thesis by (simp only: set_eq)
  next
    case False
    then have set_eq: "?f ` {j' \<in> set (j # js). 0 \<le> j' \<and> j' < int (length chan)} = ?S"
      by auto
    have "fold (peakStep chan) (j # js) m = Max (insert m ?S)"
      using False by (auto simp add: Cons.IH peakStep_max)
    then show ?thesis by (simp only: set_eq)
  qed
qed

lemma bucketPeak_Max:
  "bucketPeak chan s e =
     Max (insert 0 ((\<lambda>j. \<bar>chan ! nat j\<bar>) ` {j. s \<le> j \<and> j < e \<and> 0 \<le> j \<and> j < int (length chan)}))"
proof -
  have "{j \<in> set [s..e - 1]. 0 \<le> j \<and> j < int (length chan)}
          = {j. s \<le> j \<and> j < e \<and> 0 \<le> j \<and> j < int (length chan)}"
    by auto
  then show ?thesis
    by (simp add: bucketPeak_def fold_peakStep)
qed

lemma Max_insert0_abs:
  assumes "finite A"
  shows "Max (insert 0 ((\<lambda>j. \<bar>f j :: real\<bar>) ` A)) = (if A = {} then 0 else Max ((\<lambda>j. \<bar>f j\<bar>) ` A))"
proof (cases "A = {}")
  case True then show ?thesis by simp
next
  case False
  then obtain a where "a \<in> A" by auto
  have "0 \<le> Max ((\<lambda>j. \<bar>f j\<bar>) ` A)"
    using assms \<open>a \<in> A\<close> by (intro order_trans [OF _ Max_ge [of _ "\<bar>f a\<bar>"]]) auto
  then show ?thesis using assms False by (simp add: max_def)
qed

lemma startSampleOf_nonneg:
  assumes "0 \<le> sampleRate (buffer tr)"
  shows "0 \<le> startSampleOf tr ct wd"
proof -
  have "0 \<le> fst (adaptiveWindow ct wd (duration (buffer tr)))"
    by (simp add: adaptiveWindow_def dsub_def fl_nonneg)
  then have "0 \<le> fst (adaptiveWindow ct wd (duration (buffer tr))) * sampleRate (buffer tr)"
    using assms by simp
  then have "0 \<le> dmul (fst (adaptiveWindow ct wd (duration (buffer tr)))) (sampleRate (buffer tr))"
    unfolding dmul_def by (rule fl_nonneg)
  then show ?thesis
    by (simp add: startSampleOf_def)
qed

lemma endSampleOf_le: "endSampleOf tr ct wd n \<le> int n"
  by (simp add: endSampleOf_def)

section \<open>Strokes and columns\<close>

lemma waveform_total:
  assumes "channelData (buffer tr) \<noteq> []"
  shows "getWaveformDataForTimeWindow tr ct wd w sl = Inr (waveformOf tr ct wd w sl)"
  using assms by (simp add: waveform_unfold channel0_cases waveformOf_def channel0_def)

lemma length_waveformOf [simp]: "length (waveformOf tr ct wd w sl) = w"
  by (simp add: waveformOf_def)

lemma collect_all_Inr:
  assumes "\<forall>x \<in> set xs. f x = Inr (g x)"
  shows "collect (map f xs) = Inr (map g xs)"
  using assms by (induction xs) simp_all

lemma stackUpper_columns:
  "s \<in> set (stackUpper x sf ma zs cy) \<Longrightarrow> columnsOf s = {x}"
proof (induction zs arbitrary: cy)
  case Nil
  then show ?case by simp
next
  case (Cons z zs)
  obtain tr a where z: "z = (tr, a)" by (cases z)
  show ?case
    using Cons.prems Cons.IH
    by (auto simp: z Let_def columnsOf_def split: if_splits)
qed

lemma stackLower_columns:
  "s \<in> set (stackLower x sf ma zs cy) \<Longrightarrow> columnsOf s = {x}"
proof (induction zs arbitrary: cy)
  case Nil
  then show ?case by simp
next
  case (Cons z zs)
  obtain tr a where z: "z = (tr, a)" by (cases z)
  show ?case
    using Cons.prems Cons.IH
    by (auto simp: z Let_def columnsOf_def split: if_splits)
qed

lemma additiveColumn_columns:
  "s \<in> set (additiveColumn tracks wfs cy ma mode gm x) \<Longrightarrow> columnsOf s = {x}"
  by (auto simp: additiveColumn_def Let_def dest: stackUpper_columns stackLower_columns)

section \<open>The smoothing filter\<close>

lemma fold_smoothStep:
  "fold (smoothStep xs i) js acc =
     (fst acc + sum_list (map (\<lambda>j. xs ! nat (int i + j))
                  (filter (\<lambda>j. 0 \<le> int i + j \<and> int i + j < int (length xs)) js)),
      snd acc + length (filter (\<lambda>j. 0 \<le> int i + j \<and> int i + j < int (length xs)) js))"
  by (induction js arbitrary: acc) (simp_all add: smoothStep_def Let_def)

lemma finite_neighbours [simp]: "finite (neighbours n level i)"
  by (simp add: neighbours_def)

lemma self_neighbour: "i < n \<Longrightarrow> i \<in> neighbours n level i"
  by (simp add: neighbours_def)

lemma card_neighbours_pos: "i < n \<Longrightarrow> 0 < card (neighbours n level i)"
  using self_neighbour [of i n level] by (auto simp: card_gt_0_iff)

lemma smooth_window_sum:
  fixes g :: "nat \<Rightarrow> real"
  shows "sum_list (map (\<lambda>j. g (nat (int i + j)))
            (filter (\<lambda>j. 0 \<le> int i + j \<and> int i + j < int n) [- int h..int h]))
         = sum g (neighbours n h i)"
proof -
  let ?J = "{j. - int h \<le> j \<and> j \<le> int h \<and> 0 \<le> int i + j \<and> int i + j < int n}"
  have "distinct (filter (\<lambda>j. 0 \<le> int i + j \<and> int i + j < int n) [- int h..int h])"
    by simp
  moreover have "set (filter (\<lambda>j. 0 \<le> int i + j \<and> int i + j < int n) [- int h..int h]) = ?J"
    by auto
  ultimately have "sum_list (map (\<lambda>j. g (nat (int i + j)))
            (filter (\<lambda>j. 0 \<le> int i + j \<and> int i + j < int n) [- int h..int h]))
        = sum (\<lambda>j. g (nat (int i + j))) ?J"
    by (simp add: sum_list_distinct_conv_sum_set)
  also have "\<dots> = sum g (neighbours n h i)"
    by (rule sum.reindex_bij_witness [where i = "\<lambda>k. int k - int i" and j = "\<lambda>j. nat (int i + j)"])
       (auto simp: neighbours_def)
  finally show ?thesis .
qed

lemma smooth_window_count:
  "length (filter (\<lambda>j. 0 \<le> int i + j \<and> int i + j < int n) [- int h..int h])
     = card (neighbours n h i)"
proof -
  have "real (length (filter (\<lambda>j. 0 \<le> int i + j \<and> int i + j < int n) [- int h..int h]))
          = sum_list (map (\<lambda>j. (\<lambda>k. 1 :: real) (nat (int i + j)))
              (filter (\<lambda>j. 0 \<le> int i + j \<and> int i + j < int n) [- int h..int h]))"
    by (simp add: sum_list_triv)
  also have "\<dots> = sum (\<lambda>k. 1 :: real) (neighbours n h i)"
    by (rule smooth_window_sum)
  finally show ?thesis by simp
qed

lemma smoothAt_average:
  assumes "i < length xs"
  shows "smoothAt xs h i =
           (\<Sum>k \<in> neighbours (length xs) h i. xs ! k) / real (card (neighbours (length xs) h i))"
  using card_neighbours_pos [OF assms, of h]
  by (simp add: smoothAt_def fold_smoothStep smooth_window_sum smooth_window_count Let_def)

lemma applySmoothingFilter_movingAverage:
  "applySmoothingFilter xs level = movingAverage xs level"
  by (simp add: applySmoothingFilter_def movingAverage_def smoothAt_average)

lemma average_bounds:
  fixes f :: "nat \<Rightarrow> real"
  assumes "finite W" "W \<noteq> {}" "\<And>k. k \<in> W \<Longrightarrow> lo \<le> f k" "\<And>k. k \<in> W \<Longrightarrow> f k \<le> hi"
  shows "lo \<le> sum f W / real (card W)" and "sum f W / real (card W) \<le> hi"
proof -
  have c: "0 < real (card W)" using assms(1,2) by (simp add: card_gt_0_iff)
  have "real (card W) * lo \<le> sum f W"
    using sum_bounded_below [of W lo f] assms(3) by (simp add: mult.commute)
  then show "lo \<le> sum f W / real (card W)"
    using c by (simp add: le_divide_eq mult.commute)
  have "sum f W \<le> real (card W) * hi"
    using sum_bounded_above [of W f hi] assms(4) by (simp add: mult.commute)
  then show "sum f W / real (card W) \<le> hi"
    using c by (simp add: divide_le_eq mult.commute)
qed

lemma smoothing_between:
  assumes "i < length xs" "\<And>k. k < length xs \<Longrightarrow> lo \<le> xs ! k" "\<And>k. k < length xs \<Longrightarrow> xs ! k \<le> hi"
  shows "lo \<le> applySmoothingFilter xs level ! i \<and> applySmoothingFilter xs level ! i \<le> hi"
proof -
  let ?W = "neighbours (length xs) level i"
  have ne: "?W \<noteq> {}" using self_neighbour [OF assms(1)] by auto
  have sub: "k < length xs" if "k \<in> ?W" for k using that by (simp add: neighbours_def)
  have "applySmoothingFilter xs level ! i = sum ((!) xs) ?W / real (card ?W)"
    using assms(1) by (simp add: applySmoothingFilter_movingAverage movingAverage_def)
  then show ?thesis
    using average_bounds [of ?W lo "(!) xs" hi] ne assms(2,3) sub by simp
qed

section \<open>Smoothing and normalized amplitudes (C10)\<close>

lemma fold_peakStep_ge: "m \<le> fold (peakStep chan) js m"
proof (induction js arbitrary: m)
  case Nil
  then show ?case by simp
next
  case (Cons j js)
  have "m \<le> peakStep chan j m"
    by (simp add: peakStep_def Let_def)
  also have "\<dots> \<le> fold (peakStep chan) js (peakStep chan j m)"
    by (rule Cons.IH)
  finally show ?case by simp
qed

lemma bucketPeak_nonneg: "0 \<le> bucketPeak chan s e"
  by (simp add: bucketPeak_def fold_peakStep_ge)

lemma extractPeaks_unsmoothed_nonneg:
  "v \<in> set (extractPeaks chan s e w 0) \<Longrightarrow> 0 \<le> v"
  by (auto simp: extractPeaks_def ddiv_def dmul_def Let_def bucketPeak_nonneg split: if_splits)

lemma extractPeaks_smoothed:
  "extractPeaks chan s e w sl =
     (if 0 < sl \<and> s < e then applySmoothingFilter (extractPeaks chan s e w 0) sl
      else extractPeaks chan s e w 0)"
  by (simp add: extractPeaks_def ddiv_def dmul_def Let_def)

lemma extractPeaks_range:
  assumes "\<And>u. u \<in> set (extractPeaks chan s e w 0) \<Longrightarrow> u \<le> M"
    and "v \<in> set (extractPeaks chan s e w sl)"
  shows "0 \<le> v \<and> v \<le> M"
proof (cases "0 < sl \<and> s < e")
  case True
  let ?u = "extractPeaks chan s e w 0"
  from assms(2) True have "v \<in> set (applySmoothingFilter ?u sl)"
    by (simp add: extractPeaks_smoothed [of chan s e w sl])
  then obtain i where i: "i < length ?u" and v: "v = applySmoothingFilter ?u sl ! i"
    by (auto simp: in_set_conv_nth)
  have "0 \<le> ?u ! k" if "k < length ?u" for k
    using that by (intro extractPeaks_unsmoothed_nonneg [of _ chan s e w]) simp
  moreover have "?u ! k \<le> M" if "k < length ?u" for k
    using that by (intro assms(1)) simp
  ultimately show ?thesis
    unfolding v by (intro smoothing_between [OF i])
next
  case False
  with assms(2) have "v \<in> set (extractPeaks chan s e w 0)"
    by (simp add: extractPeaks_smoothed [of chan s e w sl])
  then show ?thesis
    using assms(1) extractPeaks_unsmoothed_nonneg by blast
qed

lemma fold_maxStep:
  "m \<le> fold maxStep wv m \<and> (\<forall>v \<in> set wv. v \<le> fold maxStep wv m)"
proof (induction wv arbitrary: m)
  case Nil
  then show ?case by simp
next
  case (Cons x wv)
  have "m \<le> maxStep x m" and "x \<le> maxStep x m"
    by (simp_all add: maxStep_def)
  with Cons [of "maxStep x m"] show ?case
    by (auto intro: order_trans)
qed

lemma globalMaxLoop_bound:
  assumes "\<forall>t \<in> set tracks. channelData (buffer t) \<noteq> []"
  shows "\<exists>g. globalMaxLoop w ct wd tracks m = Inr g \<and> m \<le> g
           \<and> (\<forall>t \<in> set tracks. \<forall>v \<in> set (waveformOf t ct wd w 0). v \<le> g)"
  using assms
proof (induction tracks arbitrary: m)
  case Nil
  then show ?case by simp
next
  case (Cons t tracks)
  let ?m = "fold maxStep (waveformOf t ct wd w 0) m"
  from Cons.prems have t: "channelData (buffer t) \<noteq> []"
    and rest: "\<forall>t \<in> set tracks. channelData (buffer t) \<noteq> []"
    by simp_all
  from Cons.IH [OF rest, of ?m] obtain g where
    g: "globalMaxLoop w ct wd tracks ?m = Inr g" "?m \<le> g"
       "\<forall>t \<in> set tracks. \<forall>v \<in> set (waveformOf t ct wd w 0). v \<le> g"
    by blast
  have "globalMaxLoop w ct wd (t # tracks) m = Inr g"
    by (simp add: waveform_total [OF t] g(1))
  moreover have "m \<le> g"
    using fold_maxStep [of m "waveformOf t ct wd w 0"] g(2) by linarith
  moreover have "\<forall>v \<in> set (waveformOf t ct wd w 0). v \<le> g"
    using fold_maxStep [of m "waveformOf t ct wd w 0"] g(2) by fastforce
  ultimately show ?case
    using g(3) by auto
qed

lemma globalMax_bound:
  assumes "\<forall>t \<in> set tracks. channelData (buffer t) \<noteq> []"
  shows "\<exists>g. calculateGlobalMaxAmplitude dims tracks ct wd = Inr g \<and> 0 < g
           \<and> (\<forall>t \<in> set tracks. \<forall>v \<in> set (waveformOf t ct wd (width dims) 0). v \<le> g)"
proof -
  from globalMaxLoop_bound [OF assms, of "width dims" ct wd 0] obtain g where
    g: "globalMaxLoop (width dims) ct wd tracks 0 = Inr g" "0 \<le> g"
       "\<forall>t \<in> set tracks. \<forall>v \<in> set (waveformOf t ct wd (width dims) 0). v \<le> g"
    by blast
  show ?thesis
  proof (cases "g > 0")
    case True
    with g show ?thesis
      by (simp add: calculateGlobalMaxAmplitude_def)
  next
    case False
    with g(2) have "g = 0" by simp
    with g show ?thesis
      by (fastforce simp add: calculateGlobalMaxAmplitude_def)
  qed
qed

lemma normalized_amplitude_bound:
  assumes "\<forall>t \<in> set tracks. channelData (buffer t) \<noteq> []" and "tr \<in> set tracks"
    and "calculateGlobalMaxAmplitude dims tracks ct wd = Inr g"
    and "x < width dims"
  shows "0 \<le> normalizeAmplitude Normalized g (waveformOf tr ct wd (width dims) sl ! x)
       \<and> normalizeAmplitude Normalized g (waveformOf tr ct wd (width dims) sl ! x) \<le> 1"
proof -
  from globalMax_bound [OF assms(1), of dims ct wd] assms(3) have
    g: "0 < g" "\<forall>t \<in> set tracks. \<forall>v \<in> set (waveformOf t ct wd (width dims) 0). v \<le> g"
    by auto
  let ?v = "waveformOf tr ct wd (width dims) sl ! x"
  have "?v \<in> set (waveformOf tr ct wd (width dims) sl)"
    using assms(4) by simp
  then have "0 \<le> ?v \<and> ?v \<le> g"
    unfolding waveformOf_def
    by (rule extractPeaks_range [rotated]) (use g(2) assms(2) in \<open>simp add: waveformOf_def\<close>)
  then show ?thesis
    using g(1) by (simp add: normalizeAmplitude_def)
qed

text \<open>
  C10. Every value the smoothing filter returns lies between the minimum and the maximum
  of its input buffer. Hence in normalized mode, where \<open>calculateGlobalMaxAmplitude\<close> takes
  the maximum over the unsmoothed extractions of all tracks and
  \<open>renderTrackRealtimeWithAmplitude\<close> divides the smoothed extraction by it, every line
  drawn for a track of the list has a normalized amplitude in \<open>[0, 1]\<close>.
\<close>

theorem smoothing_never_raises_peak:
  assumes "\<forall>t \<in> set tracks. channelData (buffer t) \<noteq> []" and "tr \<in> set tracks"
  shows "(\<forall>xs level i. i < length xs \<longrightarrow>
            Min (set xs) \<le> applySmoothingFilter xs level ! i
          \<and> applySmoothingFilter xs level ! i \<le> Max (set xs))
       \<and> (\<exists>g st.
            calculateGlobalMaxAmplitude dims tracks ct wd = Inr g
          \<and> renderTrackRealtimeWithAmplitude dims tr ct cy ma Normalized g sl wd = Inr st
          \<and> (\<forall>l \<in> set (path st). \<exists>a. 0 \<le> a \<and> a \<le> 1
                 \<and> a = normalizeAmplitude Normalized g
                         (waveformOf tr ct wd (width dims) sl ! line_x l)
                 \<and> y_start l = cy - a * ma \<and> y_end l = cy + a * ma))"
proof -
  have part1: "Min (set xs) \<le> applySmoothingFilter xs level ! i
          \<and> applySmoothingFilter xs level ! i \<le> Max (set xs)"
    if "i < length xs" for xs :: "real list" and level i
    by (rule smoothing_between [OF that]) simp_all
  from globalMax_bound [OF assms(1), of dims ct wd] obtain g where
    g: "calculateGlobalMaxAmplitude dims tracks ct wd = Inr g"
    by blast
  have tr: "channelData (buffer tr) \<noteq> []"
    using assms by blast
  let ?cols = "[0..<nat (min (revealMaxX dims ct wd) (int (width dims)))]"
  let ?wv = "waveformOf tr ct wd (width dims) sl"
  let ?st = "\<lparr>strokeStyle = (color tr, opacity tr), lineWidth = 2,
              path = map (trackLine ?wv cy ma Normalized g) ?cols\<rparr>"
  have r: "renderTrackRealtimeWithAmplitude dims tr ct cy ma Normalized g sl wd = Inr ?st"
    by (simp add: renderTrackRealtimeWithAmplitude_def waveform_total [OF tr])
  have "\<exists>a. 0 \<le> a \<and> a \<le> 1
            \<and> a = normalizeAmplitude Normalized g (?wv ! line_x l)
            \<and> y_start l = cy - a * ma \<and> y_end l = cy + a * ma"
    if "l \<in> set (path ?st)" for l
  proof -
    from that obtain x where x': "x \<in> set ?cols" and l: "l = trackLine ?wv cy ma Normalized g x"
      by auto
    from x' have x: "x < width dims"
      by simp
    from normalized_amplitude_bound [OF assms g x, of sl] show ?thesis
      by (simp add: l trackLine_def Let_def)
  qed
  with part1 g r show ?thesis
    by blast
qed

theorem smoothing_never_raises_peak_witness:
  "channelData (buffer (mockTrack [1 / 2, - 1] 2 1)) \<noteq> []
   \<and> mockTrack [1 / 2, - 1] 2 1 \<in> set [mockTrack [1 / 2, - 1] 2 1]
   \<and> (\<exists>g st.
         calculateGlobalMaxAmplitude (RenderContext 2 10) [mockTrack [1 / 2, - 1] 2 1] 1 1 = Inr g
       \<and> g = 1
       \<and> renderTrackRealtimeWithAmplitude (RenderContext 2 10) (mockTrack [1 / 2, - 1] 2 1)
           1 5 5 Normalized g 2 1 = Inr st
       \<and> path st = [\<lparr>line_x = 0, y_start = 5 / 4, y_end = 35 / 4\<rparr>,
                    \<lparr>line_x = 1, y_start = 5 / 4, y_end = 35 / 4\<rparr>]
       \<and> (\<exists>a. 0 \<le> a \<and> a \<le> 1 \<and> y_end (hd (path st)) = 5 + a * 5))"
proof -
  let ?T = "mockTrack [1 / 2, - 1] 2 1"
  let ?D = "RenderContext 2 10"
  have h0: "channelData (buffer ?T) \<noteq> []"
    by (simp add: mockTrack_def)
  then have h1: "\<forall>t \<in> set [?T]. channelData (buffer t) \<noteq> []"
    by simp
  have h2: "?T \<in> set [?T]"
    by simp
  have ch: "getChannelData (buffer ?T) 0 = Inr [1 / 2, - 1]"
    by (simp add: mockTrack_def getChannelData_def)
  have s: "startSampleOf ?T 1 1 = 0"
    by (simp add: startSampleOf_def adaptiveWindow_def dsub_def dmul_def mockTrack_def)
  have e: "endSampleOf ?T 1 1 (length [1 / 2, - 1 :: real]) = 2"
    by (simp add: endSampleOf_def adaptiveWindow_def dsub_def dmul_def mockTrack_def)
  have u: "getWaveformDataForTimeWindow ?T 1 1 2 0 = Inr [1 / 2, 1]"
    using s e [simplified]
    by (simp add: waveform_unfold [OF ch] extractPeaks_def ddiv_def dmul_def bucketPeak_def
          peakStep_def upto.simps upt_conv_Cons)
  have sm: "getWaveformDataForTimeWindow ?T 1 1 2 2 = Inr [3 / 4, 3 / 4]"
    using s e [simplified]
    by (simp add: waveform_unfold [OF ch] extractPeaks_def ddiv_def dmul_def bucketPeak_def
          peakStep_def upto.simps upt_conv_Cons applySmoothingFilter_def smoothAt_def
          smoothStep_def Let_def)
  have w: "width ?D = 2"
    by (simp add: RenderContext_def)
  have gm: "calculateGlobalMaxAmplitude ?D [?T] 1 1 = Inr 1"
    by (simp add: calculateGlobalMaxAmplitude_def w u maxStep_def)
  from smoothing_never_raises_peak [OF h1 h2, of ?D 1 1 5 5 2] obtain g st where
    g: "calculateGlobalMaxAmplitude ?D [?T] 1 1 = Inr g" and
    r: "renderTrackRealtimeWithAmplitude ?D ?T 1 5 5 Normalized g 2 1 = Inr st" and
    b: "\<forall>l \<in> set (path st). \<exists>a. 0 \<le> a \<and> a \<le> 1
            \<and> a = normalizeAmplitude Normalized g (waveformOf ?T 1 1 (width ?D) 2 ! line_x l)
            \<and> y_start l = 5 - a * 5 \<and> y_end l = 5 + a * 5"
    by blast
  from g gm have g1: "g = 1" by simp
  have "renderTrackRealtimeWithAmplitude ?D ?T 1 5 5 Normalized 1 2 1
          = Inr \<lparr>strokeStyle = (color ?T, opacity ?T), lineWidth = 2,
                  path = [\<lparr>line_x = 0, y_start = 5 / 4, y_end = 35 / 4\<rparr>,
                          \<lparr>line_x = 1, y_start = 5 / 4, y_end = 35 / 4\<rparr>]\<rparr>"
    by (simp add: renderTrackRealtimeWithAmplitude_def w sm revealMaxX_def trackLine_def
          normalizeAmplitude_def upt_conv_Cons Let_def)
  with r g1 have p: "path st = [\<lparr>line_x = 0, y_start = 5 / 4, y_end = 35 / 4\<rparr>,
                          \<lparr>line_x = 1, y_start = 5 / 4, y_end = 35 / 4\<rparr>]"
    by auto
  then have "hd (path st) \<in> set (path st)"
    by simp
  with b have "\<exists>a. 0 \<le> a \<and> a \<le> 1 \<and> y_end (hd (path st)) = 5 + a * 5"
    by blast
  with h0 h2 g g1 r p show ?thesis
    by blast
qed

section \<open>Smoothing and variance (C3)\<close>

lemma movingAverage_zeros: "movingAverage (replicate w 0) level = replicate w 0"
proof (rule nth_equalityI)
  show "length (movingAverage (replicate w 0) level) = length (replicate w (0 :: real))"
    by (simp add: movingAverage_def)
next
  fix i assume "i < length (movingAverage (replicate w 0) level)"
  then have i: "i < w" by (simp add: movingAverage_def)
  have "(\<Sum>k \<in> neighbours w level i. replicate w (0 :: real) ! k) = 0"
    by (rule sum.neutral) (simp add: neighbours_def)
  with i show "movingAverage (replicate w 0) level ! i = replicate w 0 ! i"
    by (simp add: movingAverage_def)
qed

lemma neighbours_interior:
  assumes "level \<le> i" "i + level < n"
  shows "neighbours n level i = {i - level..i + level}"
  using assms by (auto simp: neighbours_def)

lemma card_neighbours_le: "card (neighbours n level i) \<le> 1 + 2 * level"
proof -
  have "neighbours n level i \<subseteq> {i - level..i + level}"
    by (auto simp: neighbours_def)
  then have "card (neighbours n level i) \<le> card {i - level..i + level}"
    by (intro card_mono) simp_all
  then show ?thesis by simp
qed

text \<open>
  C3, as amended. For a track with a first channel and \<open>smoothingLevel > 0\<close> the waveform
  is the centered moving average of the unsmoothed waveform: element \<open>i\<close> is the mean over
  the in-bounds indices at distance at most \<open>smoothingLevel\<close> from \<open>i\<close>, a window of at most
  \<open>1 + 2 * smoothingLevel\<close> elements and of exactly that many away from the edges. Nothing
  is promised about the variance.
\<close>

theorem smoothing_is_moving_average:
  assumes "channelData (buffer tr) \<noteq> []" and "0 < sl"
  shows "getWaveformDataForTimeWindow tr ct wd w sl
           = Inr (movingAverage (waveformOf tr ct wd w 0) sl)
       \<and> (\<forall>i<w. movingAverage (waveformOf tr ct wd w 0) sl ! i
                   = (\<Sum>k \<in> neighbours w sl i. waveformOf tr ct wd w 0 ! k)
                       / real (card (neighbours w sl i))
                \<and> neighbours w sl i = {k. k < w \<and> i \<le> k + sl \<and> k \<le> i + sl}
                \<and> card (neighbours w sl i) \<le> 1 + 2 * sl
                \<and> (sl \<le> i \<and> i + sl < w \<longrightarrow>
                      neighbours w sl i = {i - sl..i + sl}
                    \<and> card (neighbours w sl i) = 1 + 2 * sl))"
proof -
  let ?s = "startSampleOf tr ct wd" and ?e = "endSampleOf tr ct wd (length (channel0 tr))"
  have "extractPeaks (channel0 tr) ?s ?e w sl
          = movingAverage (extractPeaks (channel0 tr) ?s ?e w 0) sl"
  proof (cases "?s < ?e")
    case True
    with assms(2) show ?thesis
      by (simp add: extractPeaks_smoothed [of _ _ _ _ sl] applySmoothingFilter_movingAverage)
  next
    case False
    then show ?thesis
      by (simp add: extractPeaks_degenerate movingAverage_zeros)
  qed
  then have a: "getWaveformDataForTimeWindow tr ct wd w sl
           = Inr (movingAverage (waveformOf tr ct wd w 0) sl)"
    by (simp add: waveform_total [OF assms(1)] waveformOf_def)
  have b: "movingAverage (waveformOf tr ct wd w 0) sl ! i
                   = (\<Sum>k \<in> neighbours w sl i. waveformOf tr ct wd w 0 ! k)
                       / real (card (neighbours w sl i))" if "i < w" for i
    using that by (simp add: movingAverage_def)
  have c: "neighbours w sl i = {i - sl..i + sl} \<and> card (neighbours w sl i) = 1 + 2 * sl"
    if "sl \<le> i \<and> i + sl < w" for i
    using that by (simp add: neighbours_interior)
  show ?thesis
    using a b c card_neighbours_le by (simp add: neighbours_def)
qed

theorem smoothing_is_moving_average_witness:
  "channelData (buffer (mockTrack spikes 5 1)) \<noteq> [] \<and> (0 :: nat) < 2
   \<and> getWaveformDataForTimeWindow (mockTrack spikes 5 1) 1 1 5 2
       = Inr (movingAverage (waveformOf (mockTrack spikes 5 1) 1 1 5 0) 2)
   \<and> (2 :: nat) \<le> 2 \<and> (2 :: nat) + 2 < 5
   \<and> neighbours 5 2 2 = {0..4}
   \<and> card (neighbours 5 2 2) = 5"
proof -
  have h1: "channelData (buffer (mockTrack spikes 5 1)) \<noteq> []"
    by (simp add: mockTrack_def)
  have h2: "(0 :: nat) < 2" by simp
  note T = smoothing_is_moving_average [OF h1 h2, of 1 1 5]
  from T have a: "getWaveformDataForTimeWindow (mockTrack spikes 5 1) 1 1 5 2
       = Inr (movingAverage (waveformOf (mockTrack spikes 5 1) 1 1 5 0) 2)"
    by (rule conjunct1)
  have "(2 :: nat) < 5" by simp
  with T have "(2 :: nat) \<le> 2 \<and> (2 :: nat) + 2 < 5 \<longrightarrow>
                 neighbours 5 2 2 = {2 - 2..2 + 2} \<and> card (neighbours 5 2 2) = 1 + 2 * 2"
    by blast
  then have "neighbours 5 2 2 = {0..4} \<and> card (neighbours 5 2 2) = 5"
    by simp
  with h1 a show ?thesis
    by simp
qed

text \<open>
  C3 as stated fails. On the spiked buffer the variance grows from level 1 to level 2
  (\<open>1/150\<close> to \<open>13/1875\<close>); on the ramp the variance grows from the unsmoothed buffer to
  level 1 (\<open>473/7424\<close> to \<open>8515/133632\<close>), because the edge windows average fewer samples.
\<close>

theorem smoothing_variance_counterexample:
  "getWaveformDataForTimeWindow (mockTrack spikes 5 1) 1 1 5 1
     = Inr [1 / 2, 1 / 3, 1 / 3, 1 / 3, 1 / 2]
   \<and> getWaveformDataForTimeWindow (mockTrack spikes 5 1) 1 1 5 2
     = Inr [1 / 3, 1 / 4, 2 / 5, 1 / 2, 1 / 3]
   \<and> calculateVariance [1 / 2, 1 / 3, 1 / 3, 1 / 3, 1 / 2] = 1 / 150
   \<and> calculateVariance [1 / 3, 1 / 4, 2 / 5, 1 / 2, 1 / 3] = 13 / 1875
   \<and> \<not> calculateVariance [1 / 3, 1 / 4, 2 / 5, 1 / 2, 1 / 3]
         \<le> calculateVariance [1 / 2, 1 / 3, 1 / 3, 1 / 3, 1 / 2]
   \<and> getWaveformDataForTimeWindow (mockTrack ramp 29 1) 1 1 29 0 = Inr ramp
   \<and> getWaveformDataForTimeWindow (mockTrack ramp 29 1) 1 1 29 1 = Inr rampSmoothed
   \<and> calculateVariance ramp = 473 / 7424
   \<and> calculateVariance rampSmoothed = 8515 / 133632
   \<and> \<not> calculateVariance rampSmoothed \<le> calculateVariance ramp"
proof -
  have c5: "getChannelData (buffer (mockTrack spikes 5 1)) 0 = Inr spikes"
    by (simp add: mockTrack_def getChannelData_def)
  have s5: "startSampleOf (mockTrack spikes 5 1) 1 1 = 0"
    by (simp add: startSampleOf_def adaptiveWindow_def dsub_def dmul_def mockTrack_def)
  have e5: "endSampleOf (mockTrack spikes 5 1) 1 1 (length spikes) = 5"
    by (simp add: endSampleOf_def adaptiveWindow_def dsub_def dmul_def mockTrack_def spikes_def)
  have u5: "extractPeaks spikes 0 5 5 0 = spikes"
    by (simp add: extractPeaks_def ddiv_def dmul_def bucketPeak_def peakStep_def upto.simps upt_conv_Cons
          spikes_def)
  have a1: "applySmoothingFilter spikes 1 = [1 / 2, 1 / 3, 1 / 3, 1 / 3, 1 / 2]"
    by (simp add: applySmoothingFilter_def smoothAt_def smoothStep_def spikes_def upto.simps
          upt_conv_Cons Let_def)
  have a2: "applySmoothingFilter spikes 2 = [1 / 3, 1 / 4, 2 / 5, 1 / 2, 1 / 3]"
    by (simp add: applySmoothingFilter_def smoothAt_def smoothStep_def spikes_def upto.simps
          upt_conv_Cons Let_def)
  have w1: "getWaveformDataForTimeWindow (mockTrack spikes 5 1) 1 1 5 1
              = Inr [1 / 2, 1 / 3, 1 / 3, 1 / 3, 1 / 2]"
    unfolding waveform_unfold [OF c5] s5 e5 extractPeaks_smoothed [of spikes 0 5 5 1] u5 a1
    by simp
  have w2: "getWaveformDataForTimeWindow (mockTrack spikes 5 1) 1 1 5 2
              = Inr [1 / 3, 1 / 4, 2 / 5, 1 / 2, 1 / 3]"
    unfolding waveform_unfold [OF c5] s5 e5 extractPeaks_smoothed [of spikes 0 5 5 2] u5 a2
    by simp
  have v1: "calculateVariance [1 / 2, 1 / 3, 1 / 3, 1 / 3, 1 / 2] = 1 / 150"
    by (simp add: calculateVariance_def power2_eq_square)
  have v2: "calculateVariance [1 / 3, 1 / 4, 2 / 5, 1 / 2, 1 / 3] = 13 / 1875"
    by (simp add: calculateVariance_def power2_eq_square)
  have c29: "getChannelData (buffer (mockTrack ramp 29 1)) 0 = Inr ramp"
    by (simp add: mockTrack_def getChannelData_def)
  have s29: "startSampleOf (mockTrack ramp 29 1) 1 1 = 0"
    by (simp add: startSampleOf_def adaptiveWindow_def dsub_def dmul_def mockTrack_def)
  have e29: "endSampleOf (mockTrack ramp 29 1) 1 1 (length ramp) = 29"
    by (simp add: endSampleOf_def adaptiveWindow_def dsub_def dmul_def mockTrack_def ramp_def)
  have u29: "extractPeaks ramp 0 29 29 0 = ramp"
    by (simp add: extractPeaks_def ddiv_def dmul_def bucketPeak_def peakStep_def upto.simps upt_conv_Cons
          ramp_def)
  have a29: "applySmoothingFilter ramp 1 = rampSmoothed"
    by (simp add: applySmoothingFilter_def smoothAt_def smoothStep_def ramp_def
          rampSmoothed_def upto.simps upt_conv_Cons Let_def)
  have w29_0: "getWaveformDataForTimeWindow (mockTrack ramp 29 1) 1 1 29 0 = Inr ramp"
    unfolding waveform_unfold [OF c29] s29 e29 u29 by simp
  have w29_1: "getWaveformDataForTimeWindow (mockTrack ramp 29 1) 1 1 29 1 = Inr rampSmoothed"
    unfolding waveform_unfold [OF c29] s29 e29 extractPeaks_smoothed [of ramp 0 29 29 1] u29 a29
    by simp
  have v29_0: "calculateVariance ramp = 473 / 7424"
    by (simp add: calculateVariance_def power2_eq_square ramp_def)
  have v29_1: "calculateVariance rampSmoothed = 8515 / 133632"
    by (simp add: calculateVariance_def power2_eq_square rampSmoothed_def)
  show ?thesis
    unfolding w1 w2 v1 v2 w29_0 w29_1 v29_0 v29_1 by simp
qed

section \<open>Additive layout (C5)\<close>

lemma stackUpper_Cons:
  "stackUpper x sf ma ((tr, a) # zs) cy =
     (if a * sf * ma > 1 / 2
      then \<lparr>strokeStyle = (color tr, opacity tr), lineWidth = 1,
            path = [\<lparr>line_x = x, y_start = cy, y_end = cy - a * sf * ma\<rparr>]\<rparr>
           # stackUpper x sf ma zs (cy - a * sf * ma)
      else stackUpper x sf ma zs cy)"
  by (simp add: Let_def)

lemma stackLower_Cons:
  "stackLower x sf ma ((tr, a) # zs) cy =
     (if a * sf * ma > 1 / 2
      then \<lparr>strokeStyle = (color tr, opacity tr), lineWidth = 1,
            path = [\<lparr>line_x = x, y_start = cy, y_end = cy + a * sf * ma\<rparr>]\<rparr>
           # stackLower x sf ma zs (cy + a * sf * ma)
      else stackLower x sf ma zs cy)"
  by (simp add: Let_def)

lemma stackUpper_height:
  assumes "\<forall>z \<in> set zs. 0 \<le> snd z * sf * ma"
  shows "stackedHeight (stackUpper x sf ma zs cy) \<le> (\<Sum>z\<leftarrow>zs. snd z * sf * ma)"
  using assms
proof (induction zs arbitrary: cy)
  case Nil
  then show ?case by (simp add: stackedHeight_def)
next
  case (Cons z zs)
  obtain tr a where z: "z = (tr, a)" by (cases z)
  from Cons.prems have h0: "0 \<le> a * sf * ma" and rest: "\<forall>z \<in> set zs. 0 \<le> snd z * sf * ma"
    by (simp_all add: z)
  have "stackedHeight (stackUpper x sf ma zs c) \<le> (\<Sum>z\<leftarrow>zs. snd z * sf * ma)" for c
    by (rule Cons.IH [OF rest])
  from this [of cy] this [of "cy - a * sf * ma"] h0 show ?case
    unfolding z stackUpper_Cons
    by (simp add: stackedHeight_def strokeLength_def)
qed

lemma stackLower_height:
  assumes "\<forall>z \<in> set zs. 0 \<le> snd z * sf * ma"
  shows "stackedHeight (stackLower x sf ma zs cy) \<le> (\<Sum>z\<leftarrow>zs. snd z * sf * ma)"
  using assms
proof (induction zs arbitrary: cy)
  case Nil
  then show ?case by (simp add: stackedHeight_def)
next
  case (Cons z zs)
  obtain tr a where z: "z = (tr, a)" by (cases z)
  from Cons.prems have h0: "0 \<le> a * sf * ma" and rest: "\<forall>z \<in> set zs. 0 \<le> snd z * sf * ma"
    by (simp_all add: z)
  have "stackedHeight (stackLower x sf ma zs c) \<le> (\<Sum>z\<leftarrow>zs. snd z * sf * ma)" for c
    by (rule Cons.IH [OF rest])
  from this [of cy] this [of "cy + a * sf * ma"] h0 show ?case
    unfolding z stackLower_Cons
    by (simp add: stackedHeight_def strokeLength_def)
qed

lemma stackUpper_count:
  "length (stackUpper x sf ma zs cy) = length (filter (\<lambda>z. snd z * sf * ma > 1 / 2) zs)"
proof (induction zs arbitrary: cy)
  case Nil
  then show ?case by simp
next
  case (Cons z zs)
  obtain tr a where z: "z = (tr, a)" by (cases z)
  show ?case
    unfolding z stackUpper_Cons by (simp add: Cons.IH)
qed

lemma stackLower_count:
  "length (stackLower x sf ma zs cy) = length (filter (\<lambda>z. snd z * sf * ma > 1 / 2) zs)"
proof (induction zs arbitrary: cy)
  case Nil
  then show ?case by simp
next
  case (Cons z zs)
  obtain tr a where z: "z = (tr, a)" by (cases z)
  show ?case
    unfolding z stackLower_Cons by (simp add: Cons.IH)
qed

lemma stackUpper_lines:
  assumes "\<forall>z \<in> set zs. 0 \<le> snd z * sf * ma"
    and "s \<in> set (stackUpper x sf ma zs cy)" and "l \<in> set (path s)"
  shows "strokeLength s > 1 / 2 \<and> cy - (\<Sum>z\<leftarrow>zs. snd z * sf * ma) \<le> y_end l
       \<and> y_end l \<le> y_start l \<and> y_start l \<le> cy"
  using assms
proof (induction zs arbitrary: cy)
  case Nil
  then show ?case by simp
next
  case (Cons z zs)
  obtain tr a where z: "z = (tr, a)" by (cases z)
  let ?h = "a * sf * ma"
  let ?rest = "\<Sum>z\<leftarrow>zs. snd z * sf * ma"
  let ?hd = "\<lparr>strokeStyle = (color tr, opacity tr), lineWidth = 1,
            path = [\<lparr>line_x = x, y_start = cy, y_end = cy - ?h\<rparr>]\<rparr>"
  from Cons.prems(1) have h0: "0 \<le> ?h" and rest: "\<forall>z \<in> set zs. 0 \<le> snd z * sf * ma"
    by (simp_all add: z)
  have rest0: "0 \<le> ?rest"
    using rest by (intro sum_list_nonneg) auto
  have total: "(\<Sum>z\<leftarrow>z # zs. snd z * sf * ma) = ?h + ?rest"
    by (simp add: z)
  from Cons.prems(2) consider
      (head) "?h > 1 / 2" "s = ?hd"
    | (tail) "?h > 1 / 2" "s \<in> set (stackUpper x sf ma zs (cy - ?h))"
    | (skip) "s \<in> set (stackUpper x sf ma zs cy)"
    unfolding z stackUpper_Cons by (auto split: if_splits)
  then show ?case
  proof cases
    case head
    with Cons.prems(3) have "l = \<lparr>line_x = x, y_start = cy, y_end = cy - ?h\<rparr>"
      by simp
    with head h0 rest0 show ?thesis
      unfolding total by (simp add: strokeLength_def)
  next
    case tail
    from Cons.IH [OF rest tail(2) Cons.prems(3)] h0 show ?thesis
      unfolding total by simp
  next
    case skip
    from Cons.IH [OF rest skip Cons.prems(3)] h0 show ?thesis
      unfolding total by simp
  qed
qed

lemma stackLower_lines:
  assumes "\<forall>z \<in> set zs. 0 \<le> snd z * sf * ma"
    and "s \<in> set (stackLower x sf ma zs cy)" and "l \<in> set (path s)"
  shows "strokeLength s > 1 / 2 \<and> cy \<le> y_start l \<and> y_start l \<le> y_end l
       \<and> y_end l \<le> cy + (\<Sum>z\<leftarrow>zs. snd z * sf * ma)"
  using assms
proof (induction zs arbitrary: cy)
  case Nil
  then show ?case by simp
next
  case (Cons z zs)
  obtain tr a where z: "z = (tr, a)" by (cases z)
  let ?h = "a * sf * ma"
  let ?rest = "\<Sum>z\<leftarrow>zs. snd z * sf * ma"
  let ?hd = "\<lparr>strokeStyle = (color tr, opacity tr), lineWidth = 1,
            path = [\<lparr>line_x = x, y_start = cy, y_end = cy + ?h\<rparr>]\<rparr>"
  from Cons.prems(1) have h0: "0 \<le> ?h" and rest: "\<forall>z \<in> set zs. 0 \<le> snd z * sf * ma"
    by (simp_all add: z)
  have rest0: "0 \<le> ?rest"
    using rest by (intro sum_list_nonneg) auto
  have total: "(\<Sum>z\<leftarrow>z # zs. snd z * sf * ma) = ?h + ?rest"
    by (simp add: z)
  from Cons.prems(2) consider
      (head) "?h > 1 / 2" "s = ?hd"
    | (tail) "?h > 1 / 2" "s \<in> set (stackLower x sf ma zs (cy + ?h))"
    | (skip) "s \<in> set (stackLower x sf ma zs cy)"
    unfolding z stackLower_Cons by (auto split: if_splits)
  then show ?case
  proof cases
    case head
    with Cons.prems(3) have "l = \<lparr>line_x = x, y_start = cy, y_end = cy + ?h\<rparr>"
      by simp
    with head h0 rest0 show ?thesis
      unfolding total by (simp add: strokeLength_def)
  next
    case tail
    from Cons.IH [OF rest tail(2) Cons.prems(3)] h0 show ?thesis
      unfolding total by simp
  next
    case skip
    from Cons.IH [OF rest skip Cons.prems(3)] h0 show ?thesis
      unfolding total by simp
  qed
qed

lemma fold_add_sum_list: "fold (\<lambda>a sum. sum + a) xs (m :: real) = m + sum_list xs"
  by (induction xs arbitrary: m) simp_all

lemma additiveScaleFactor_eq:
  "additiveScaleFactor amps = (if sum_list amps > 1 then 1 / sum_list amps else 1)"
  by (simp add: additiveScaleFactor_def fold_add_sum_list)

lemma additiveScaleFactor_bound:
  "0 < additiveScaleFactor amps \<and> additiveScaleFactor amps * sum_list amps \<le> 1"
  by (simp add: additiveScaleFactor_eq)

lemma extractPeaks_nonneg:
  assumes "v \<in> set (extractPeaks chan s e w sl)"
  shows "0 \<le> v"
proof -
  have "u \<le> Max (set (extractPeaks chan s e w 0))" if "u \<in> set (extractPeaks chan s e w 0)" for u
    using that by simp
  from extractPeaks_range [OF this assms] show ?thesis
    by simp
qed

lemma columnAmplitudes_nonneg:
  assumes "a \<in> set (columnAmplitudes (map (\<lambda>t. waveformOf t ct wd w sl) tracks) x mode gm)"
  shows "0 \<le> a"
proof -
  from assms obtain t where
    a: "a = normalizeAmplitude mode gm
              (if x < length (waveformOf t ct wd w sl) then waveformOf t ct wd w sl ! x else 0)"
    by (auto simp: columnAmplitudes_def)
  have "0 \<le> waveformOf t ct wd w sl ! x" if "x < length (waveformOf t ct wd w sl)"
  proof -
    from that have "waveformOf t ct wd w sl ! x \<in> set (waveformOf t ct wd w sl)"
      by (rule nth_mem)
    then show ?thesis
      unfolding waveformOf_def by (rule extractPeaks_nonneg)
  qed
  then have "0 \<le> (if x < length (waveformOf t ct wd w sl) then waveformOf t ct wd w sl ! x else 0)"
    by simp
  then show ?thesis
    unfolding a by (simp add: normalizeAmplitude_def)
qed

lemma stacked_total:
  fixes amps :: "real list"
  assumes "length tracks = length amps" "\<forall>a \<in> set amps. 0 \<le> a" "0 \<le> ma"
  shows "(\<forall>z \<in> set (zip tracks amps). 0 \<le> snd z * additiveScaleFactor amps * ma)
       \<and> (\<Sum>z\<leftarrow>zip tracks amps. snd z * additiveScaleFactor amps * ma) \<le> ma"
proof -
  let ?sf = "additiveScaleFactor amps"
  have sf: "0 < ?sf" "?sf * sum_list amps \<le> 1"
    using additiveScaleFactor_bound [of amps] by simp_all
  have "0 \<le> snd z * ?sf * ma" if "z \<in> set (zip tracks amps)" for z
  proof -
    obtain t a where z: "z = (t, a)" by (cases z)
    from that have "snd z \<in> set amps"
      unfolding z by (auto dest: set_zip_rightD)
    with assms(2,3) sf(1) show ?thesis by simp
  qed
  moreover have "(\<Sum>z\<leftarrow>zip tracks amps. snd z * ?sf * ma)
                   = (\<Sum>a\<leftarrow>map snd (zip tracks amps). a * (?sf * ma))"
    by (simp add: comp_def mult.assoc)
  moreover have "map snd (zip tracks amps) = amps"
    using assms(1) by simp
  moreover have "(\<Sum>a\<leftarrow>amps. a * (?sf * ma)) = (?sf * sum_list amps) * ma"
    by (simp add: sum_list_mult_const mult.commute mult.left_commute)
  moreover have "(?sf * sum_list amps) * ma \<le> 1 * ma"
    using sf(2) assms(3) by (intro mult_right_mono)
  ultimately show ?thesis by simp
qed

text \<open>
  C5. For tracks with a first channel and \<open>maxAmplitude \<ge> 0\<close>, \<open>renderTracksAdditive\<close> draws
  the revealed columns one by one; in every column the amplitudes are non-negative, the
  scale factor is \<open>1 / sum\<close> when their sum exceeds 1 and 1 otherwise, the segments stacked
  above the center have total length at most \<open>maxAmplitude\<close> and stay within
  \<open>[centerY - maxAmplitude, centerY]\<close>, likewise below the center, and exactly the segments
  longer than half a pixel are drawn.
\<close>

theorem additive_clipping_safety:
  assumes "\<forall>t \<in> set tracks. channelData (buffer t) \<noteq> []" and "0 \<le> ma"
  shows "renderTracksAdditive dims tracks ct cy ma mode gm sl wd
           = Inr (concat (map (additiveColumn tracks
                                 (map (\<lambda>t. waveformOf t ct wd (width dims) sl) tracks)
                                 cy ma mode gm)
                    [0..<nat (min (revealMaxX dims ct wd) (int (width dims)))]))
       \<and> (\<forall>x amps sf upper lower.
             amps = columnAmplitudes (map (\<lambda>t. waveformOf t ct wd (width dims) sl) tracks) x mode gm
           \<and> sf = additiveScaleFactor amps
           \<and> upper = stackUpper x sf ma (zip tracks amps) cy
           \<and> lower = stackLower x sf ma (zip tracks amps) cy
           \<longrightarrow> additiveColumn tracks (map (\<lambda>t. waveformOf t ct wd (width dims) sl) tracks)
                   cy ma mode gm x = upper @ lower
             \<and> (\<forall>a \<in> set amps. 0 \<le> a)
             \<and> sf = (if sum_list amps > 1 then 1 / sum_list amps else 1)
             \<and> stackedHeight upper \<le> ma \<and> stackedHeight lower \<le> ma
             \<and> length upper = length (filter (\<lambda>z. snd z * sf * ma > 1 / 2) (zip tracks amps))
             \<and> length lower = length (filter (\<lambda>z. snd z * sf * ma > 1 / 2) (zip tracks amps))
             \<and> (\<forall>s \<in> set upper. \<forall>l \<in> set (path s). strokeLength s > 1 / 2
                   \<and> cy - ma \<le> y_end l \<and> y_end l \<le> y_start l \<and> y_start l \<le> cy)
             \<and> (\<forall>s \<in> set lower. \<forall>l \<in> set (path s). strokeLength s > 1 / 2
                   \<and> cy \<le> y_start l \<and> y_start l \<le> y_end l \<and> y_end l \<le> cy + ma))"
proof -
  let ?wfs = "map (\<lambda>t. waveformOf t ct wd (width dims) sl) tracks"
  have col: "collect (map (\<lambda>t. getWaveformDataForTimeWindow t ct wd (width dims) sl) tracks)
               = Inr ?wfs"
    by (rule collect_all_Inr) (use assms(1) in \<open>simp add: waveform_total\<close>)
  have r: "renderTracksAdditive dims tracks ct cy ma mode gm sl wd
           = Inr (concat (map (additiveColumn tracks ?wfs cy ma mode gm)
                    [0..<nat (min (revealMaxX dims ct wd) (int (width dims)))]))"
    by (simp add: renderTracksAdditive_def col)
  have column: "additiveColumn tracks ?wfs cy ma mode gm x = upper @ lower
             \<and> (\<forall>a \<in> set amps. 0 \<le> a)
             \<and> sf = (if sum_list amps > 1 then 1 / sum_list amps else 1)
             \<and> stackedHeight upper \<le> ma \<and> stackedHeight lower \<le> ma
             \<and> length upper = length (filter (\<lambda>z. snd z * sf * ma > 1 / 2) (zip tracks amps))
             \<and> length lower = length (filter (\<lambda>z. snd z * sf * ma > 1 / 2) (zip tracks amps))
             \<and> (\<forall>s \<in> set upper. \<forall>l \<in> set (path s). strokeLength s > 1 / 2
                   \<and> cy - ma \<le> y_end l \<and> y_end l \<le> y_start l \<and> y_start l \<le> cy)
             \<and> (\<forall>s \<in> set lower. \<forall>l \<in> set (path s). strokeLength s > 1 / 2
                   \<and> cy \<le> y_start l \<and> y_start l \<le> y_end l \<and> y_end l \<le> cy + ma)"
    if amps: "amps = columnAmplitudes ?wfs x mode gm"
      and sf: "sf = additiveScaleFactor amps"
      and upper: "upper = stackUpper x sf ma (zip tracks amps) cy"
      and lower: "lower = stackLower x sf ma (zip tracks amps) cy"
    for x amps sf upper lower
  proof -
    have len: "length tracks = length amps"
      by (simp add: amps columnAmplitudes_def)
    have nonneg: "\<forall>a \<in> set amps. 0 \<le> a"
      unfolding amps using columnAmplitudes_nonneg by blast
    note tot = stacked_total [OF len nonneg assms(2), folded sf]
    from tot have nn: "\<forall>z \<in> set (zip tracks amps). 0 \<le> snd z * sf * ma"
      and le: "(\<Sum>z\<leftarrow>zip tracks amps. snd z * sf * ma) \<le> ma"
      by simp_all
    have 1: "additiveColumn tracks ?wfs cy ma mode gm x = upper @ lower"
      by (simp add: additiveColumn_def Let_def amps sf upper lower)
    have 2: "sf = (if sum_list amps > 1 then 1 / sum_list amps else 1)"
      by (simp add: sf additiveScaleFactor_eq)
    have 3: "stackedHeight upper \<le> ma"
      unfolding upper using stackUpper_height [OF nn, of x cy] le by linarith
    have 4: "stackedHeight lower \<le> ma"
      unfolding lower using stackLower_height [OF nn, of x cy] le by linarith
    have 5: "length upper = length (filter (\<lambda>z. snd z * sf * ma > 1 / 2) (zip tracks amps))"
      unfolding upper by (rule stackUpper_count)
    have 6: "length lower = length (filter (\<lambda>z. snd z * sf * ma > 1 / 2) (zip tracks amps))"
      unfolding lower by (rule stackLower_count)
    have 7: "strokeLength s > 1 / 2
                   \<and> cy - ma \<le> y_end l \<and> y_end l \<le> y_start l \<and> y_start l \<le> cy"
      if "s \<in> set upper" "l \<in> set (path s)" for s l
      using stackUpper_lines [OF nn that(1) [unfolded upper] that(2)] le by linarith
    have 8: "strokeLength s > 1 / 2
                   \<and> cy \<le> y_start l \<and> y_start l \<le> y_end l \<and> y_end l \<le> cy + ma"
      if "s \<in> set lower" "l \<in> set (path s)" for s l
      using stackLower_lines [OF nn that(1) [unfolded lower] that(2)] le by linarith
    from 7 have up7: "\<forall>s \<in> set upper. \<forall>l \<in> set (path s). strokeLength s > 1 / 2
                   \<and> cy - ma \<le> y_end l \<and> y_end l \<le> y_start l \<and> y_start l \<le> cy"
      by blast
    from 8 have lo8: "\<forall>s \<in> set lower. \<forall>l \<in> set (path s). strokeLength s > 1 / 2
                   \<and> cy \<le> y_start l \<and> y_start l \<le> y_end l \<and> y_end l \<le> cy + ma"
      by blast
    show ?thesis
      by (intro conjI) (fact 1 nonneg 2 3 4 5 6 up7 lo8)+
  qed
  show ?thesis
    apply (rule conjI [OF r])
    apply (intro allI impI)
    apply (elim conjE)
    apply (rule column; assumption)
    done
qed

theorem additive_clipping_safety_witness:
  "channelData (buffer (mockTrack [1, 1] 2 1)) \<noteq> []
   \<and> channelData (buffer (mockTrack [1 / 2, 1 / 2] 2 1)) \<noteq> []
   \<and> (0 :: real) \<le> 30
   \<and> columnAmplitudes
         (map (\<lambda>t. waveformOf t 1 1 (width (RenderContext 2 100)) 0)
            [mockTrack [1, 1] 2 1, mockTrack [1 / 2, 1 / 2] 2 1]) 0 Individual 1
       = [1, 1 / 2]
   \<and> additiveScaleFactor [1, 1 / 2] = 2 / 3
   \<and> map path (stackUpper 0 (2 / 3) 30
         (zip [mockTrack [1, 1] 2 1, mockTrack [1 / 2, 1 / 2] 2 1] [1, 1 / 2]) 50)
       = [[\<lparr>line_x = 0, y_start = 50, y_end = 30\<rparr>], [\<lparr>line_x = 0, y_start = 30, y_end = 20\<rparr>]]
   \<and> stackedHeight (stackUpper 0 (2 / 3) 30
         (zip [mockTrack [1, 1] 2 1, mockTrack [1 / 2, 1 / 2] 2 1] [1, 1 / 2]) 50) \<le> 30
   \<and> stackedHeight (stackLower 0 (2 / 3) 30
         (zip [mockTrack [1, 1] 2 1, mockTrack [1 / 2, 1 / 2] 2 1] [1, 1 / 2]) 50) \<le> 30"
proof -
  let ?A = "mockTrack [1, 1] 2 1" and ?B = "mockTrack [1 / 2, 1 / 2] 2 1"
  let ?D = "RenderContext 2 100"
  let ?wfs = "map (\<lambda>t. waveformOf t 1 1 (width ?D) 0) [?A, ?B]"
  have hA: "channelData (buffer ?A) \<noteq> []" and hB: "channelData (buffer ?B) \<noteq> []"
    by (simp_all add: mockTrack_def)
  then have h1: "\<forall>t \<in> set [?A, ?B]. channelData (buffer t) \<noteq> []"
    by simp
  have h2: "(0 :: real) \<le> 30" by simp
  have w: "width ?D = 2"
    by (simp add: RenderContext_def)
  have wA: "waveformOf ?A 1 1 2 0 = [1, 1]"
    by (simp add: waveformOf_def channel0_def startSampleOf_def endSampleOf_def
          adaptiveWindow_def dsub_def dmul_def mockTrack_def extractPeaks_def ddiv_def dmul_def bucketPeak_def peakStep_def
          upto.simps upt_conv_Cons)
  have wB: "waveformOf ?B 1 1 2 0 = [1 / 2, 1 / 2]"
    by (simp add: waveformOf_def channel0_def startSampleOf_def endSampleOf_def
          adaptiveWindow_def dsub_def dmul_def mockTrack_def extractPeaks_def ddiv_def dmul_def bucketPeak_def peakStep_def
          upto.simps upt_conv_Cons)
  have amps: "columnAmplitudes ?wfs 0 Individual 1 = [1, 1 / 2]"
    by (simp add: w wA wB columnAmplitudes_def normalizeAmplitude_def)
  have sf: "additiveScaleFactor [1, 1 / 2] = 2 / 3"
    by (simp add: additiveScaleFactor_def)
  have up: "map path (stackUpper 0 (2 / 3) 30 (zip [?A, ?B] [1, 1 / 2]) 50)
       = [[\<lparr>line_x = 0, y_start = 50, y_end = 30\<rparr>], [\<lparr>line_x = 0, y_start = 30, y_end = 20\<rparr>]]"
    by (simp add: Let_def)
  from additive_clipping_safety [OF h1 h2, of ?D 1 50 Individual 1 0 1]
  have "\<forall>x amps sf upper lower.
             amps = columnAmplitudes ?wfs x Individual 1
           \<and> sf = additiveScaleFactor amps
           \<and> upper = stackUpper x sf 30 (zip [?A, ?B] amps) 50
           \<and> lower = stackLower x sf 30 (zip [?A, ?B] amps) 50
           \<longrightarrow> stackedHeight upper \<le> 30 \<and> stackedHeight lower \<le> 30"
    by blast
  then have "stackedHeight (stackUpper 0 (additiveScaleFactor (columnAmplitudes ?wfs 0 Individual 1))
                 30 (zip [?A, ?B] (columnAmplitudes ?wfs 0 Individual 1)) 50) \<le> 30
           \<and> stackedHeight (stackLower 0 (additiveScaleFactor (columnAmplitudes ?wfs 0 Individual 1))
                 30 (zip [?A, ?B] (columnAmplitudes ?wfs 0 Individual 1)) 50) \<le> 30"
    by blast
  then have "stackedHeight (stackUpper 0 (2 / 3) 30 (zip [?A, ?B] [1, 1 / 2]) 50) \<le> 30
           \<and> stackedHeight (stackLower 0 (2 / 3) 30 (zip [?A, ?B] [1, 1 / 2]) 50) \<le> 30"
    unfolding amps sf .
  with hA hB h2 amps sf up show ?thesis
    by blast
qed

section \<open>Audio mixer (C6)\<close>

lemma fold_rmw:
  assumes "m \<le> length a"
  shows "fold (\<lambda>i a. a[i := h i (f32get a i)]) [0..<m] a
           = map (\<lambda>i. if i < m then h i (a ! i) else a ! i) [0..<length a]"
  using assms
proof (induction m)
  case 0
  then show ?case by (simp add: map_nth)
next
  case (Suc m)
  let ?b = "map (\<lambda>i. if i < m then h i (a ! i) else a ! i) [0..<length a]"
  from Suc have b: "fold (\<lambda>i a. a[i := h i (f32get a i)]) [0..<m] a = ?b"
    by simp
  have m: "m < length a" using Suc.prems by simp
  then have get: "f32get ?b m = a ! m"
    by (simp add: f32get_def)
  have "?b[m := h m (a ! m)] = map (\<lambda>i. if i < Suc m then h i (a ! i) else a ! i) [0..<length a]"
    using m by (intro nth_equalityI) (auto simp: nth_list_update less_Suc_eq)
  then show ?case
    by (simp add: b get)
qed

lemma fold_pair:
  "fold (\<lambda>i acc. (F i (fst acc), G i (snd acc))) xs (l, r) = (fold F xs l, fold G xs r)"
  by (induction xs arbitrary: l r) simp_all

lemma mixSample_fold:
  assumes "m \<le> length L" "m \<le> length R" "m \<le> length c0" "m \<le> length c1"
  shows "fold (mixSample c0 c1 g) [0..<m] (map Num L, map Num R)
           = (map Num (map (\<lambda>i. L ! i + (if i < m then c0 ! i * g else 0)) [0..<length L]),
              map Num (map (\<lambda>i. R ! i + (if i < m then c1 ! i * g else 0)) [0..<length R]))"
proof -
  define F where "F = (\<lambda>c (i :: nat) a. a[i := jadd (f32get a i) (jmul (f32read c i) (Num g))])"
  have ms: "mixSample c0 c1 g = (\<lambda>i acc. (F c0 i (fst acc), F c1 i (snd acc)))"
    by (intro ext) (simp add: mixSample_def F_def)
  have pair: "fold (mixSample c0 c1 g) [0..<m] (map Num L, map Num R)
                = (fold (F c0) [0..<m] (map Num L), fold (F c1) [0..<m] (map Num R))"
    unfolding ms by (rule fold_pair)
  have one: "fold (F c) [0..<m] (map Num X)
             = map Num (map (\<lambda>i. X ! i + (if i < m then c ! i * g else 0)) [0..<length X])"
    if "m \<le> length X" "m \<le> length c" for X c
  proof -
    have "m \<le> length (map Num X)" using that by simp
    from fold_rmw [OF this, of "\<lambda>i v. jadd v (jmul (f32read c i) (Num g))"] that show ?thesis
      by (auto simp: f32read_def F_def)
  qed
  show ?thesis
    unfolding pair using assms by (simp add: one)
qed

lemma loadedTrack_channels:
  assumes "loadedTrack t"
  shows "getChannelData (buffer t) 0 = Inr (leftChannel t)"
    and "numberOfChannels (buffer t) > 1 \<Longrightarrow> getChannelData (buffer t) 1 = Inr (rightChannel t)"
    and "\<not> numberOfChannels (buffer t) > 1 \<Longrightarrow> rightChannel t = leftChannel t"
    and "length (leftChannel t) = buf_length (buffer t)"
    and "length (rightChannel t) = buf_length (buffer t)"
proof -
  let ?b = "buffer t"
  from assms have ne: "channelData ?b \<noteq> []"
    and n: "numberOfChannels ?b = length (channelData ?b)"
    and l: "buf_length ?b = length (channelData ?b ! 0)"
    and all: "list_all (\<lambda>c. length c = length (channelData ?b ! 0)) (channelData ?b)"
    by (simp_all add: loadedTrack_def Let_def)
  show "getChannelData ?b 0 = Inr (leftChannel t)"
    using ne by (simp add: getChannelData_def leftChannel_def)
  show "getChannelData ?b 1 = Inr (rightChannel t)" if "numberOfChannels ?b > 1"
    using n that by (simp add: getChannelData_def rightChannel_def)
  show "rightChannel t = leftChannel t" if "\<not> numberOfChannels ?b > 1"
    using that by (simp add: leftChannel_def rightChannel_def)
  show "length (leftChannel t) = buf_length ?b"
    by (simp add: leftChannel_def l)
  show "length (rightChannel t) = buf_length ?b"
    using all n by (auto simp: rightChannel_def l list_all_length)
qed

lemma mixTrack_sum:
  assumes "loadedTrack t" "length L = n" "length R = n"
  shows "mixTrack n t (map Num L, map Num R)
           = Inr (map Num (map (\<lambda>i. L ! i + weightedSample (leftChannel t) (opacity t) i) [0..<n]),
                  map Num (map (\<lambda>i. R ! i + weightedSample (rightChannel t) (opacity t) i) [0..<n]))"
proof -
  note ch = loadedTrack_channels [OF assms(1)]
  let ?m = "min (buf_length (buffer t)) n"
  have unf: "mixTrack n t acc
               = Inr (fold (mixSample (leftChannel t) (rightChannel t) (opacity t)) [0..<?m] acc)"
    for acc
  proof (cases "numberOfChannels (buffer t) > 1")
    case True
    then show ?thesis
      by (simp add: mixTrack_def Let_def ch(1) ch(2) [OF True, unfolded One_nat_def])
  next
    case False
    then show ?thesis
      by (simp add: mixTrack_def Let_def ch(1) ch(3) [OF False])
  qed
  have "fold (mixSample (leftChannel t) (rightChannel t) (opacity t)) [0..<?m]
          (map Num L, map Num R)
        = (map Num (map (\<lambda>i. L ! i + (if i < ?m then leftChannel t ! i * opacity t else 0))
                      [0..<length L]),
           map Num (map (\<lambda>i. R ! i + (if i < ?m then rightChannel t ! i * opacity t else 0))
                      [0..<length R]))"
    by (rule mixSample_fold) (simp_all add: assms ch(4,5))
  moreover have "map (\<lambda>i. X ! i + (if i < ?m then c ! i * opacity t else 0)) [0..<n]
                   = map (\<lambda>i. X ! i + weightedSample c (opacity t) i) [0..<n]"
    if "length c = buf_length (buffer t)" for X c
    using that by (simp add: weightedSample_def)
  ultimately show ?thesis
    by (simp add: unf assms ch(4,5))
qed

lemma mixAll_sum:
  assumes "\<forall>t \<in> set tracks. loadedTrack t" "length L = n" "length R = n"
  shows "mixAll n tracks (map Num L, map Num R)
           = Inr (map Num (map (\<lambda>i. L ! i
                     + (\<Sum>t\<leftarrow>tracks. weightedSample (leftChannel t) (opacity t) i)) [0..<n]),
                  map Num (map (\<lambda>i. R ! i
                     + (\<Sum>t\<leftarrow>tracks. weightedSample (rightChannel t) (opacity t) i)) [0..<n]))"
  using assms
proof (induction tracks arbitrary: L R)
  case Nil
  have "map ((!) X) [0..<n] = X" if "length X = n" for X :: "real list"
    using that map_nth [of X] by simp
  with Nil show ?case by simp
next
  case (Cons t tracks)
  let ?L = "map (\<lambda>i. L ! i + weightedSample (leftChannel t) (opacity t) i) [0..<n]"
  let ?R = "map (\<lambda>i. R ! i + weightedSample (rightChannel t) (opacity t) i) [0..<n]"
  from Cons.prems have t: "loadedTrack t" and rest: "\<forall>t \<in> set tracks. loadedTrack t"
    by simp_all
  have step: "mixTrack n t (map Num L, map Num R) = Inr (map Num ?L, map Num ?R)"
    by (rule mixTrack_sum [OF t Cons.prems(2,3)])
  have "mixAll n (t # tracks) (map Num L, map Num R) = mixAll n tracks (map Num ?L, map Num ?R)"
    by (simp add: step)
  also have "\<dots> = Inr (map Num (map (\<lambda>i. ?L ! i
                     + (\<Sum>t\<leftarrow>tracks. weightedSample (leftChannel t) (opacity t) i)) [0..<n]),
                  map Num (map (\<lambda>i. ?R ! i
                     + (\<Sum>t\<leftarrow>tracks. weightedSample (rightChannel t) (opacity t) i)) [0..<n]))"
    by (rule Cons.IH [OF rest]) simp_all
  finally show ?case
    by (simp add: add.assoc)
qed

lemma mixAll_mixSum:
  assumes "\<forall>t \<in> set tracks. loadedTrack t"
  shows "mixAll n tracks (replicate n (Num 0), replicate n (Num 0))
           = Inr (map Num (mixSum leftChannel tracks n), map Num (mixSum rightChannel tracks n))"
proof -
  have z: "replicate n (Num 0) = map Num (replicate n 0)"
    by simp
  show ?thesis
    unfolding z using mixAll_sum [OF assms, of "replicate n 0" n "replicate n 0"]
    by (simp add: mixSum_def)
qed

lemma peakScan_prefix:
  assumes "k \<le> length L" "k \<le> length R"
  shows "fold (\<lambda>i maxAmplitude.
            jmax (jmax maxAmplitude (jabs (f32get (map Num L) i))) (jabs (f32get (map Num R) i)))
          [0..<k] (Num 0)
         = Num (Max (insert 0 ((\<lambda>i. \<bar>L ! i\<bar>) ` {..<k} \<union> (\<lambda>i. \<bar>R ! i\<bar>) ` {..<k})))"
  using assms
proof (induction k)
  case 0
  then show ?case by simp
next
  case (Suc k)
  define P where "P = insert 0 ((\<lambda>i. \<bar>L ! i\<bar>) ` {..<k} \<union> (\<lambda>i. \<bar>R ! i\<bar>) ` {..<k})"
  define a where "a = \<bar>L ! k\<bar>"
  define b where "b = \<bar>R ! k\<bar>"
  have fin: "finite P" and ne: "P \<noteq> {}"
    by (simp_all add: P_def)
  have set_eq: "insert 0 ((\<lambda>i. \<bar>L ! i\<bar>) ` {..<Suc k} \<union> (\<lambda>i. \<bar>R ! i\<bar>) ` {..<Suc k})
                  = insert a (insert b P)"
    by (auto simp: lessThan_Suc P_def a_def b_def)
  have "Max (insert b P) = max b (Max P)"
    by (rule Max_insert [OF fin ne])
  moreover have "Max (insert a (insert b P)) = max a (Max (insert b P))"
    by (rule Max_insert) (simp_all add: fin)
  ultimately have mx: "Max (insert a (insert b P)) = max (max (Max P) a) b"
    by (simp add: max.commute max.left_commute)
  from Suc have IH: "fold (\<lambda>i maxAmplitude.
            jmax (jmax maxAmplitude (jabs (f32get (map Num L) i))) (jabs (f32get (map Num R) i)))
          [0..<k] (Num 0) = Num (Max P)"
    by (simp add: P_def)
  have gl: "f32get (map Num L) k = Num (L ! k)" and gr: "f32get (map Num R) k = Num (R ! k)"
    using Suc.prems by (simp_all add: f32get_def)
  show ?case
    unfolding set_eq mx by (simp add: IH gl gr a_def b_def)
qed

lemma peakScan_peakOf:
  assumes "length L = n" "length R = n"
  shows "peakScan n (map Num L) (map Num R) = Num (peakOf L R)"
proof -
  have "(\<lambda>i. \<bar>X ! i\<bar>) ` {..<n} = abs ` set X" if "length X = n" for X :: "real list"
    using that by (auto simp: set_conv_nth)
  with assms have "insert 0 ((\<lambda>i. \<bar>L ! i\<bar>) ` {..<n} \<union> (\<lambda>i. \<bar>R ! i\<bar>) ` {..<n})
                     = insert 0 (abs ` (set L \<union> set R))"
    by (simp add: image_Un)
  with peakScan_prefix [of n L R] assms show ?thesis
    by (simp add: peakScan_def peakOf_def)
qed

lemma peakOf_bound:
  assumes "v \<in> set L \<union> set R"
  shows "\<bar>v\<bar> \<le> peakOf L R"
  unfolding peakOf_def using assms by (intro Max_ge) auto

lemma normalizeMix_map:
  assumes "length L = n"
  shows "normalizeMix n (Num g) (map Num L) = map (\<lambda>v. Num (v * g)) L"
proof -
  have "n \<le> length (map Num L)" using assms by simp
  from fold_rmw [OF this, of "\<lambda>i v. jmul v (Num g)"]
  have "normalizeMix n (Num g) (map Num L) = map (\<lambda>i. Num (L ! i * g)) [0..<n]"
    using assms by (simp add: normalizeMix_def)
  also have "\<dots> = map (\<lambda>v. Num (v * g)) (map ((!) L) [0..<n])"
    by simp
  also have "map ((!) L) [0..<n] = L"
    using assms map_nth [of L] by simp
  finally show ?thesis .
qed

lemma getDuration_Max:
  assumes "tracks \<noteq> []"
  shows "getDuration tracks = Max ((\<lambda>t. duration (buffer t)) ` set tracks)"
proof -
  from assms obtain t ts where ts: "tracks = t # ts" by (cases tracks) auto
  have "getDuration tracks
          = fold max (map (\<lambda>t. duration (buffer t)) ts) (duration (buffer t))"
    by (simp add: getDuration_def ts)
  also have "\<dots> = Max (set (duration (buffer t) # map (\<lambda>t. duration (buffer t)) ts))"
    by (rule Max.set_eq_fold [symmetric])
  finally show ?thesis
    by (simp add: ts)
qed

text \<open>
  C6. For a non-empty list of loaded tracks \<open>mixTracks\<close> returns two buffers of
  \<open>ceil (maximal duration * sample rate of the first track)\<close> samples, the product being
  the binary64 product of the source and every duration the binary64 quotient that
  \<open>loadTrack\<close> stores; before normalization
  the left one is the sum over the tracks of channel 0 weighted by the opacity, the right
  one the same for channel 1 (channel 0 of a mono track); when the peak absolute value of
  both exceeds 1 every sample is divided by the peak, otherwise the sums are returned
  unchanged; in both cases every output sample has absolute value at most 1.
\<close>

theorem audio_mixer:
  assumes "tracks \<noteq> []" and "\<forall>t \<in> set tracks. loadedTrack t"
  shows "\<exists>n left right.
           int n = \<lceil>dmul (Max ((\<lambda>t. duration (buffer t)) ` set tracks))
                          (sampleRate (buffer (hd tracks)))\<rceil>
         \<and> mixTracks tracks = Inr (left, right, sampleRate (buffer (hd tracks)))
         \<and> length left = n \<and> length right = n
         \<and> (peakOf (mixSum leftChannel tracks n) (mixSum rightChannel tracks n) > 1 \<longrightarrow>
               left = map (\<lambda>v. Num (v / peakOf (mixSum leftChannel tracks n)
                                              (mixSum rightChannel tracks n)))
                        (mixSum leftChannel tracks n)
             \<and> right = map (\<lambda>v. Num (v / peakOf (mixSum leftChannel tracks n)
                                               (mixSum rightChannel tracks n)))
                        (mixSum rightChannel tracks n))
         \<and> (\<not> peakOf (mixSum leftChannel tracks n) (mixSum rightChannel tracks n) > 1 \<longrightarrow>
               left = map Num (mixSum leftChannel tracks n)
             \<and> right = map Num (mixSum rightChannel tracks n))
         \<and> (\<forall>v \<in> set left \<union> set right. \<exists>r. v = Num r \<and> \<bar>r\<bar> \<le> 1)"
proof -
  let ?sr = "sampleRate (buffer (hd tracks))"
  let ?d = "Max ((\<lambda>t. duration (buffer t)) ` set tracks)"
  define n where "n = nat \<lceil>dmul ?d ?sr\<rceil>"
  define L where "L = mixSum leftChannel tracks n"
  define R where "R = mixSum rightChannel tracks n"
  define p where "p = peakOf L R"
  have hd: "hd tracks \<in> set tracks" using assms(1) by simp
  with assms(2) have lt: "loadedTrack (hd tracks)" by blast
  then have sr: "0 < ?sr"
    and dq: "duration (buffer (hd tracks))
               = ddiv (real (length (channelData (buffer (hd tracks)) ! 0))) ?sr"
    by (simp_all add: loadedTrack_def Let_def)
  have "0 \<le> real (length (channelData (buffer (hd tracks)) ! 0)) / ?sr"
    using sr by simp
  then have dh: "0 \<le> duration (buffer (hd tracks))"
    unfolding dq ddiv_def by (rule fl_nonneg)
  have "duration (buffer (hd tracks)) \<le> ?d"
    using hd by (intro Max_ge) simp_all
  with dh have "0 \<le> ?d" by linarith
  with sr have "0 \<le> ?d * ?sr" by simp
  then have "0 \<le> dmul ?d ?sr"
    unfolding dmul_def by (rule fl_nonneg)
  then have n0: "0 \<le> \<lceil>dmul ?d ?sr\<rceil>" by linarith
  then have n_int: "int n = \<lceil>dmul ?d ?sr\<rceil>"
    by (simp add: n_def)
  have len: "length L = n" "length R = n"
    by (simp_all add: mixSum_def L_def R_def)
  have mixed: "mixAll n tracks (replicate n (Num 0), replicate n (Num 0))
                 = Inr (map Num L, map Num R)"
    unfolding L_def R_def by (rule mixAll_mixSum [OF assms(2)])
  have peak: "peakScan n (map Num L) (map Num R) = Num p"
    unfolding p_def by (rule peakScan_peakOf [OF len])
  have unf: "mixTracks tracks =
               (if jgreater (Num p) 1
                then Inr (normalizeMix n (Num (1 / p)) (map Num L),
                          normalizeMix n (Num (1 / p)) (map Num R), ?sr)
                else Inr (map Num L, map Num R, ?sr))"
  proof -
    have ne: "length tracks \<noteq> 0" using assms(1) by simp
    have c: "\<not> \<lceil>dmul (getDuration tracks) ?sr\<rceil> < 0"
      using n0 by (simp add: getDuration_Max [OF assms(1)])
    have nn: "nat \<lceil>dmul (getDuration tracks) ?sr\<rceil> = n"
      by (simp add: n_def getDuration_Max [OF assms(1)])
    show ?thesis
      unfolding mixTracks_def Let_def nn
      by (simp only: ne c if_False mixed peak sum.case prod.case jsnum.case) simp
  qed
  define left where "left = (if p > 1 then map (\<lambda>v. Num (v / p)) L else map Num L)"
  define right where "right = (if p > 1 then map (\<lambda>v. Num (v / p)) R else map Num R)"
  have res: "mixTracks tracks = Inr (left, right, ?sr)"
    by (simp add: unf left_def right_def normalizeMix_map [OF len(1)] normalizeMix_map [OF len(2)])
  have l: "length left = n" and r: "length right = n"
    by (simp_all add: left_def right_def len)
  have c1: "p > 1 \<longrightarrow> left = map (\<lambda>v. Num (v / p)) L \<and> right = map (\<lambda>v. Num (v / p)) R"
    by (simp add: left_def right_def)
  have c2: "\<not> p > 1 \<longrightarrow> left = map Num L \<and> right = map Num R"
    by (simp add: left_def right_def)
  have bound: "\<forall>v \<in> set left \<union> set right. \<exists>r. v = Num r \<and> \<bar>r\<bar> \<le> 1"
  proof
    fix v assume v: "v \<in> set left \<union> set right"
    show "\<exists>r. v = Num r \<and> \<bar>r\<bar> \<le> 1"
    proof (cases "p > 1")
      case True
      with v obtain u where u: "u \<in> set L \<union> set R" and vu: "v = Num (u / p)"
        by (auto simp: left_def right_def)
      from peakOf_bound [OF u] True have "\<bar>u / p\<bar> \<le> 1"
        by (simp add: p_def)
      with vu show ?thesis by blast
    next
      case False
      with v obtain u where u: "u \<in> set L \<union> set R" and vu: "v = Num u"
        by (auto simp: left_def right_def)
      from peakOf_bound [OF u] False have "\<bar>u\<bar> \<le> 1"
        by (simp add: p_def)
      with vu show ?thesis by blast
    qed
  qed
  show ?thesis
    apply (rule exI [of _ n], rule exI [of _ left], rule exI [of _ right])
    apply (fold L_def R_def)
    apply (fold p_def)
    apply (intro conjI)
    apply (fact n_int res l r c1 c2 bound)+
    done
qed

theorem audio_mixer_witness:
  "[cliTrack [[1, 1 / 2]] 2 1, cliTrack [[1, 0], [0, 1]] 2 1] \<noteq> []
   \<and> loadedTrack (cliTrack [[1, 1 / 2]] 2 1) \<and> loadedTrack (cliTrack [[1, 0], [0, 1]] 2 1)
   \<and> mixSum leftChannel [cliTrack [[1, 1 / 2]] 2 1, cliTrack [[1, 0], [0, 1]] 2 1] 2 = [2, 1 / 2]
   \<and> mixSum rightChannel [cliTrack [[1, 1 / 2]] 2 1, cliTrack [[1, 0], [0, 1]] 2 1] 2 = [1, 3 / 2]
   \<and> peakOf [2, 1 / 2] [1, 3 / 2] = 2
   \<and> mixTracks [cliTrack [[1, 1 / 2]] 2 1, cliTrack [[1, 0], [0, 1]] 2 1]
       = Inr ([Num 1, Num (1 / 4)], [Num (1 / 2), Num (3 / 4)], 2)
   \<and> [cliTrack [sevenSamples] 48000 1] \<noteq> []
   \<and> loadedTrack (cliTrack [sevenSamples] 48000 1)
   \<and> \<lceil>dmul (duration (buffer (cliTrack [sevenSamples] 48000 1))) 48000\<rceil> = 8
   \<and> mixTracks [cliTrack [sevenSamples] 48000 1]
       = Inr (map Num (sevenSamples @ [0]), map Num (sevenSamples @ [0]), 48000)"
proof -
  let ?A = "cliTrack [[1, 1 / 2]] 2 1" and ?B = "cliTrack [[1, 0], [0, 1]] 2 1"
  let ?C = "cliTrack [sevenSamples] 48000 1"
  have h1: "[?A, ?B] \<noteq> []" by simp
  have lA: "loadedTrack ?A" and lB: "loadedTrack ?B"
    by (simp_all add: loadedTrack_def cliTrack_def)
  then have h2: "\<forall>t \<in> set [?A, ?B]. loadedTrack t"
    by simp
  have d: "Max ((\<lambda>t. duration (buffer t)) ` set [?A, ?B]) = 1"
    by (simp add: cliTrack_def double_ops)
  have sr: "sampleRate (buffer (hd [?A, ?B])) = 2"
    by (simp add: cliTrack_def)
  have L: "mixSum leftChannel [?A, ?B] 2 = [2, 1 / 2]"
    by (simp add: mixSum_def leftChannel_def weightedSample_def cliTrack_def upt_conv_Cons)
  have R: "mixSum rightChannel [?A, ?B] 2 = [1, 3 / 2]"
    by (simp add: mixSum_def rightChannel_def weightedSample_def cliTrack_def upt_conv_Cons)
  have p: "peakOf [2, 1 / 2] [1, 3 / 2] = 2"
    by (simp add: peakOf_def)
  from audio_mixer [OF h1 h2] obtain n left right where
    n: "int n = \<lceil>dmul (Max ((\<lambda>t. duration (buffer t)) ` set [?A, ?B]))
                       (sampleRate (buffer (hd [?A, ?B])))\<rceil>"
    and res: "mixTracks [?A, ?B] = Inr (left, right, sampleRate (buffer (hd [?A, ?B])))"
    and norm: "peakOf (mixSum leftChannel [?A, ?B] n) (mixSum rightChannel [?A, ?B] n) > 1 \<longrightarrow>
               left = map (\<lambda>v. Num (v / peakOf (mixSum leftChannel [?A, ?B] n)
                                              (mixSum rightChannel [?A, ?B] n)))
                        (mixSum leftChannel [?A, ?B] n)
             \<and> right = map (\<lambda>v. Num (v / peakOf (mixSum leftChannel [?A, ?B] n)
                                               (mixSum rightChannel [?A, ?B] n)))
                        (mixSum rightChannel [?A, ?B] n)"
    by (elim exE conjE) (rule that; assumption)
  from n have n2: "n = 2"
    unfolding d sr by (simp add: double_ops)
  from norm have "left = [Num 1, Num (1 / 4)] \<and> right = [Num (1 / 2), Num (3 / 4)]"
    unfolding n2 L R p by simp
  with res have m1: "mixTracks [?A, ?B] = Inr ([Num 1, Num (1 / 4)], [Num (1 / 2), Num (3 / 4)], 2)"
    unfolding sr by simp
  have h3: "[?C] \<noteq> []" by simp
  have lC: "loadedTrack ?C"
    by (simp add: loadedTrack_def cliTrack_def sevenSamples_def)
  then have h4: "\<forall>t \<in> set [?C]. loadedTrack t"
    by simp
  have dC: "duration (buffer ?C) = 5380300354831953 / 36893488147419103232"
    by (simp add: cliTrack_def sevenSamples_def double_ops fl_eval)
  have nC: "\<lceil>dmul (duration (buffer ?C)) 48000\<rceil> = 8"
    unfolding dC by (simp add: double_ops fl_eval)
  have mC: "Max ((\<lambda>t. duration (buffer t)) ` set [?C]) = duration (buffer ?C)"
    by simp
  have sC: "sampleRate (buffer (hd [?C])) = 48000"
    by (simp add: cliTrack_def)
  have LC: "mixSum leftChannel [?C] 8 = sevenSamples @ [0]"
    by (simp add: mixSum_def leftChannel_def weightedSample_def cliTrack_def upt_conv_Cons
          sevenSamples_def)
  have RC: "mixSum rightChannel [?C] 8 = sevenSamples @ [0]"
    by (simp add: mixSum_def rightChannel_def weightedSample_def cliTrack_def upt_conv_Cons
          sevenSamples_def)
  have pC: "peakOf (sevenSamples @ [0]) (sevenSamples @ [0]) = 1"
    by (simp add: peakOf_def sevenSamples_def)
  from audio_mixer [OF h3 h4] obtain n' left' right' where
    n': "int n' = \<lceil>dmul (Max ((\<lambda>t. duration (buffer t)) ` set [?C]))
                        (sampleRate (buffer (hd [?C])))\<rceil>"
    and res': "mixTracks [?C] = Inr (left', right', sampleRate (buffer (hd [?C])))"
    and keep: "\<not> peakOf (mixSum leftChannel [?C] n') (mixSum rightChannel [?C] n') > 1 \<longrightarrow>
               left' = map Num (mixSum leftChannel [?C] n')
             \<and> right' = map Num (mixSum rightChannel [?C] n')"
    by (elim exE conjE) (rule that; assumption)
  from n' have n8: "n' = 8"
    unfolding mC sC nC by simp
  from keep have "left' = map Num (sevenSamples @ [0]) \<and> right' = map Num (sevenSamples @ [0])"
    unfolding n8 LC RC pC by simp
  with res' have m2: "mixTracks [?C] = Inr (map Num (sevenSamples @ [0]), map Num (sevenSamples @ [0]), 48000)"
    unfolding sC by simp
  from h1 lA lB L R p m1 h3 lC nC m2 show ?thesis
    by (intro conjI)
qed

section \<open>Spectrum extraction (C4)\<close>

subsection \<open>The discrete Fourier transform of a signal of even length\<close>

lemma sum_even_odd:
  fixes f :: "nat \<Rightarrow> complex"
  shows "(\<Sum>j<2 * h. f j) = (\<Sum>i<h. f (2 * i)) + (\<Sum>i<h. f (2 * i + 1))"
  by (induction h) (simp_all add: algebra_simps)

lemma cis_nat_turns: "cis (- (2 * pi * real n)) = 1"
proof -
  have "cis (2 * pi * real_of_int (- int n)) = 1"
    by (rule cis_multiple_2pi) simp
  then show ?thesis by simp
qed

lemma cis_odd_half_turns: "cis (- (pi * real (2 * n + 1))) = - 1"
proof -
  have "- (pi * real (2 * n + 1)) = - (2 * pi * real (Suc n)) + pi"
    by (simp add: algebra_simps)
  then have "cis (- (pi * real (2 * n + 1))) = cis (- (2 * pi * real (Suc n))) * cis pi"
    by (simp only: cis_mult)
  then show ?thesis
    by (simp only: cis_nat_turns cis_pi) simp
qed

lemma twiddle_even:
  assumes "0 < h"
  shows "cis (- 2 * pi * real k * real (2 * i) / real (2 * h)) = cis (- 2 * pi * real k * real i / real h)"
proof -
  have "- 2 * pi * real k * real (2 * i) / real (2 * h) = - 2 * pi * real k * real i / real h"
    using assms by (simp add: field_simps)
  then show ?thesis
    by (rule arg_cong)
qed

lemma twiddle_odd:
  assumes "0 < h"
  shows "cis (- 2 * pi * real k * real (2 * i + 1) / real (2 * h))
           = twiddle (2 * h) k * cis (- 2 * pi * real k * real i / real h)"
proof -
  have "- 2 * pi * real k * real (2 * i + 1) / real (2 * h)
          = (- 2 * pi * real k) / real (2 * h) + - 2 * pi * real k * real i / real h"
    using assms by (simp add: field_simps)
  then have "cis (- 2 * pi * real k * real (2 * i + 1) / real (2 * h))
          = cis ((- 2 * pi * real k) / real (2 * h) + - 2 * pi * real k * real i / real h)"
    by (rule arg_cong)
  then show ?thesis
    by (simp only: twiddle_def cis_mult)
qed

lemma twiddle_even_upper:
  assumes "0 < h"
  shows "cis (- 2 * pi * real (k + h) * real (2 * i) / real (2 * h))
           = cis (- 2 * pi * real k * real i / real h)"
proof -
  have "- 2 * pi * real (k + h) * real (2 * i) / real (2 * h)
          = - 2 * pi * real k * real i / real h + - (2 * pi * real i)"
    using assms by (simp add: field_simps)
  then have "cis (- 2 * pi * real (k + h) * real (2 * i) / real (2 * h))
          = cis (- 2 * pi * real k * real i / real h + - (2 * pi * real i))"
    by (rule arg_cong)
  then show ?thesis
    by (simp only: cis_mult [symmetric] cis_nat_turns mult_1_right)
qed

lemma twiddle_odd_upper:
  assumes "0 < h"
  shows "cis (- 2 * pi * real (k + h) * real (2 * i + 1) / real (2 * h))
           = - (twiddle (2 * h) k * cis (- 2 * pi * real k * real i / real h))"
proof -
  have "- 2 * pi * real (k + h) * real (2 * i + 1) / real (2 * h)
          = - 2 * pi * real k * real (2 * i + 1) / real (2 * h) + - (pi * real (2 * i + 1))"
    using assms by (simp add: field_simps)
  then have "cis (- 2 * pi * real (k + h) * real (2 * i + 1) / real (2 * h))
          = cis (- 2 * pi * real k * real (2 * i + 1) / real (2 * h) + - (pi * real (2 * i + 1)))"
    by (rule arg_cong)
  then show ?thesis
    by (simp only: cis_mult [symmetric] cis_odd_half_turns twiddle_odd [OF assms]
          mult_minus_right mult_1_right)
qed

lemma dft_split:
  assumes "length xs = 2 * h" "0 < h"
  shows "dft xs k = dft (evens xs) k + twiddle (2 * h) k * dft (odds xs) k"
    and "dft xs (k + h) = dft (evens xs) k - twiddle (2 * h) k * dft (odds xs) k"
proof -
  define Ev where "Ev = (\<lambda>i. of_real (evens xs ! i) * cis (- 2 * pi * real k * real i / real h))"
  define Od where "Od = (\<lambda>i. of_real (odds xs ! i) * cis (- 2 * pi * real k * real i / real h))"
  define T where "T = (\<lambda>q j. of_real (xs ! j) * cis (- 2 * pi * real q * real j / real (2 * h)))"
  have le: "length (evens xs) = h" and lo: "length (odds xs) = h"
    using assms by (simp_all add: evens_def odds_def)
  have ev: "evens xs ! i = xs ! (2 * i)" and od: "odds xs ! i = xs ! (2 * i + 1)" if "i < h" for i
    using that assms by (simp_all add: evens_def odds_def mult.commute)
  have dE: "dft (evens xs) k = sum Ev {..<h}" and dO: "dft (odds xs) k = sum Od {..<h}"
    by (simp_all only: dft_def le lo Ev_def Od_def)
  have dT: "dft xs q = sum (T q) {..<2 * h}" for q
    by (simp only: dft_def assms(1) T_def)
  have split: "sum (T q) {..<2 * h} = (\<Sum>i<h. T q (2 * i)) + (\<Sum>i<h. T q (2 * i + 1))" for q
    by (rule sum_even_odd)
  have t1: "T k (2 * i) = Ev i" if "i < h" for i
    unfolding T_def Ev_def by (simp only: twiddle_even [OF assms(2)] ev [OF that])
  have t2: "T k (2 * i + 1) = twiddle (2 * h) k * Od i" if "i < h" for i
    unfolding T_def Od_def twiddle_odd [OF assms(2)] od [OF that]
    by (rule mult.left_commute)
  have t3: "T (k + h) (2 * i) = Ev i" if "i < h" for i
    unfolding T_def Ev_def by (simp only: twiddle_even_upper [OF assms(2)] ev [OF that])
  have t4: "T (k + h) (2 * i + 1) = - (twiddle (2 * h) k * Od i)" if "i < h" for i
    unfolding T_def Od_def twiddle_odd_upper [OF assms(2)] od [OF that] mult_minus_right
    by (simp only: mult.left_commute [of "complex_of_real (xs ! (2 * i + 1))"])
  have s1: "(\<Sum>i<h. T k (2 * i)) = sum Ev {..<h}"
    by (rule sum.cong [OF refl]) (rule t1, simp)
  have s2: "(\<Sum>i<h. T k (2 * i + 1)) = twiddle (2 * h) k * sum Od {..<h}"
    unfolding sum_distrib_left by (rule sum.cong [OF refl]) (rule t2, simp)
  have s3: "(\<Sum>i<h. T (k + h) (2 * i)) = sum Ev {..<h}"
    by (rule sum.cong [OF refl]) (rule t3, simp)
  have s4: "(\<Sum>i<h. T (k + h) (2 * i + 1)) = - (twiddle (2 * h) k * sum Od {..<h})"
    unfolding sum_distrib_left sum_negf [symmetric] by (rule sum.cong [OF refl]) (rule t4, simp)
  show "dft xs k = dft (evens xs) k + twiddle (2 * h) k * dft (odds xs) k"
    by (simp only: dT split s1 s2 dE dO)
  show "dft xs (k + h) = dft (evens xs) k - twiddle (2 * h) k * dft (odds xs) k"
    by (simp only: dT split s3 s4 dE dO) simp
qed

subsection \<open>The recursive transform of the source\<close>

lemma fillLoop_map:
  assumes "n = length a"
  shows "fillLoop n f (a :: jsnum list) = map f [0..<n]"
proof -
  have "n \<le> length a" using assms by simp
  from fold_rmw [OF this, of "\<lambda>i v. f i"] assms show ?thesis
    by (simp add: fillLoop_def)
qed

lemma halfCeil_double [simp]: "halfCeil (2 * h) = h"
  by (simp add: halfCeil_def)

lemma fftEven_Num:
  assumes "length xs = 2 * h"
  shows "fftEven (map Num xs) = map Num (evens xs)"
proof -
  have "fftEven (map Num xs) = map (\<lambda>i. f32get (map Num xs) (i * 2)) [0..<h]"
    by (simp add: fftEven_def assms fillLoop_map)
  also have "\<dots> = map Num (evens xs)"
    by (simp add: evens_def assms f32get_def)
  finally show ?thesis .
qed

lemma fftOdd_Num:
  assumes "length xs = 2 * h"
  shows "fftOdd (map Num xs) = map Num (odds xs)"
proof -
  have "fftOdd (map Num xs) = map (\<lambda>i. f32get (map Num xs) (i * 2 + 1)) [0..<h]"
    by (simp add: fftOdd_def assms fillLoop_map)
  also have "\<dots> = map Num (odds xs)"
    by (simp add: odds_def assms f32get_def)
  finally show ?thesis .
qed

lemma butterfly_fold:
  fixes A B C D :: "nat \<Rightarrow> jsnum"
  assumes "length out = 4 * h"
    and step: "step = (\<lambda>k out. out[k * 2 := A k, k * 2 + 1 := B k,
                                   k * 2 + 2 * h := C k, k * 2 + 2 * h + 1 := D k])"
  shows "n \<le> h \<Longrightarrow>
         length (fold step [0..<n] out) = 4 * h
       \<and> (\<forall>k<n. fold step [0..<n] out ! (k * 2) = A k
                \<and> fold step [0..<n] out ! (k * 2 + 1) = B k
                \<and> fold step [0..<n] out ! (k * 2 + 2 * h) = C k
                \<and> fold step [0..<n] out ! (k * 2 + 2 * h + 1) = D k)"
proof (induction n)
  case 0
  then show ?case by (simp add: assms(1))
next
  case (Suc n)
  define r where "r = fold step [0..<n] out"
  have n: "n < h" using Suc.prems by simp
  then have "n \<le> h" by simp
  note IH0 = Suc.IH [OF this, folded r_def]
  have IH1: "length r = 4 * h"
    using IH0 by (rule conjunct1)
  have IH2: "r ! (k * 2) = A k \<and> r ! (k * 2 + 1) = B k
                \<and> r ! (k * 2 + 2 * h) = C k \<and> r ! (k * 2 + 2 * h + 1) = D k" if "k < n" for k
    using IH0 that by blast
  define r' where "r' = step n r"
  have r': "r' = r[n * 2 := A n, n * 2 + 1 := B n, n * 2 + 2 * h := C n, n * 2 + 2 * h + 1 := D n]"
    by (simp add: r'_def step)
  have fold_eq: "fold step [0..<Suc n] out = r'"
    by (simp add: r'_def r_def)
  have len: "length r' = 4 * h"
    by (simp add: r' IH1)
  have new: "r' ! (n * 2) = A n \<and> r' ! (n * 2 + 1) = B n
                \<and> r' ! (n * 2 + 2 * h) = C n \<and> r' ! (n * 2 + 2 * h + 1) = D n"
    using n by (simp add: r' nth_list_update IH1)
  have old: "r' ! (k * 2) = A k \<and> r' ! (k * 2 + 1) = B k
                \<and> r' ! (k * 2 + 2 * h) = C k \<and> r' ! (k * 2 + 2 * h + 1) = D k" if "k < n" for k
    using n that IH2 [OF that] by (simp add: r' nth_list_update IH1)
  show ?case
    unfolding fold_eq using len new old by (auto simp: less_Suc_eq)
qed

lemma interleaved_get:
  assumes "k < length xs"
  shows "f32get (interleaved xs) (k * 2) = Num (Re (dft xs k))"
    and "f32get (interleaved xs) (k * 2 + 1) = Num (Im (dft xs k))"
  using assms by (simp_all add: f32get_def interleaved_def)

lemma fftButterfly_dft:
  assumes "length ev = h" "length od = h" "k < h"
  shows "fftButterfly (2 * h) (interleaved ev) (interleaved od) k out
           = out[k * 2 := Num (Re (dft ev k + twiddle (2 * h) k * dft od k)),
                 k * 2 + 1 := Num (Im (dft ev k + twiddle (2 * h) k * dft od k)),
                 k * 2 + 2 * h := Num (Re (dft ev k - twiddle (2 * h) k * dft od k)),
                 k * 2 + 2 * h + 1 := Num (Im (dft ev k - twiddle (2 * h) k * dft od k))]"
proof -
  have ke: "k < length ev" and ko: "k < length od"
    using assms by simp_all
  show ?thesis
    unfolding fftButterfly_def Let_def interleaved_get [OF ke] interleaved_get [OF ko]
    by (simp add: twiddle_def)
qed

lemma fftCombine_dft:
  assumes "length xs = 2 * h" "0 < h"
  shows "fftCombine (2 * h) (interleaved (evens xs)) (interleaved (odds xs)) = interleaved xs"
proof -
  define step where "step = (\<lambda>k out. out[k * 2 := Num (Re (dft xs k)),
                                 k * 2 + 1 := Num (Im (dft xs k)),
                                 k * 2 + 2 * h := Num (Re (dft xs (k + h))),
                                 k * 2 + 2 * h + 1 := Num (Im (dft xs (k + h)))])"
  define out where "out = replicate (2 * h * 2) (Num 0)"
  have le: "length (evens xs) = h" and lo: "length (odds xs) = h"
    using assms by (simp_all add: evens_def odds_def)
  have same: "fftButterfly (2 * h) (interleaved (evens xs)) (interleaved (odds xs)) k = step k"
    if "k \<in> set [0..<h]" for k
  proof
    fix a
    from that have k: "k < h" by simp
    show "fftButterfly (2 * h) (interleaved (evens xs)) (interleaved (odds xs)) k a = step k a"
      unfolding fftButterfly_dft [OF le lo k] step_def
        dft_split(1) [OF assms, symmetric] dft_split(2) [OF assms, symmetric] ..
  qed
  have "fftCombine (2 * h) (interleaved (evens xs)) (interleaved (odds xs))
          = fold step [0..<h] out"
    unfolding fftCombine_def halfCeil_double out_def
    by (rule fold_cong [OF refl refl same])
  moreover have lenout: "length out = 4 * h"
    by (simp add: out_def)
  note bf = butterfly_fold [OF lenout step_def, of h, OF order_refl]
  have "fold step [0..<h] out = interleaved xs"
  proof (rule nth_equalityI)
    show "length (fold step [0..<h] out) = length (interleaved xs)"
      using bf by (simp add: interleaved_def assms(1))
  next
    fix j assume "j < length (fold step [0..<h] out)"
    with bf have j: "j < 4 * h" by simp
    define k where "k = (if j < 2 * h then j div 2 else (j - 2 * h) div 2)"
    have k: "k < h" using j by (auto simp: k_def)
    from bf k have vals: "fold step [0..<h] out ! (k * 2) = Num (Re (dft xs k))"
      "fold step [0..<h] out ! (k * 2 + 1) = Num (Im (dft xs k))"
      "fold step [0..<h] out ! (k * 2 + 2 * h) = Num (Re (dft xs (k + h)))"
      "fold step [0..<h] out ! (k * 2 + 2 * h + 1) = Num (Im (dft xs (k + h)))"
      by blast+
    have par: "r = (r div 2) * 2 \<or> r = (r div 2) * 2 + 1" for r :: nat
      by presburger
    consider (a) "j = k * 2" "j < 2 * h" | (b) "j = k * 2 + 1" "j < 2 * h"
      | (c) "j = k * 2 + 2 * h" | (d) "j = k * 2 + 2 * h + 1"
    proof (cases "j < 2 * h")
      case True
      then have "k = j div 2" by (simp add: k_def)
      with par [of j] True that(1,2) show ?thesis by blast
    next
      case False
      then have kk: "k = (j - 2 * h) div 2" by (simp add: k_def)
      from par [of "j - 2 * h"] False have "j = k * 2 + 2 * h \<or> j = k * 2 + 2 * h + 1"
        unfolding kk by linarith
      with that(3,4) show ?thesis by blast
    qed
    then show "fold step [0..<h] out ! j = interleaved xs ! j"
    proof cases
      case a
      with vals(1) j show ?thesis by (simp add: interleaved_def assms(1))
    next
      case b
      with vals(2) j show ?thesis by (simp add: interleaved_def assms(1))
    next
      case c
      have "(k * 2 + 2 * h) div 2 = k + h" by simp
      with c vals(3) j show ?thesis by (simp add: interleaved_def assms(1))
    next
      case d
      have "(k * 2 + 2 * h + 1) div 2 = k + h" by simp
      with d vals(4) j show ?thesis by (simp add: interleaved_def assms(1))
    qed
  qed
  ultimately show ?thesis by simp
qed

lemma dft_single: "dft [x] 0 = of_real x"
  by (simp add: dft_def)

lemma fft_interleaved:
  "length xs = 2 ^ m \<Longrightarrow> fft (map Num xs) = interleaved xs"
proof (induction m arbitrary: xs)
  case 0
  then obtain x where xs: "xs = [x]"
    by (cases xs) auto
  show ?case
    unfolding xs by (subst fft.simps) (simp add: f32get_def interleaved_def dft_single upt_conv_Cons)
next
  case (Suc m)
  define h :: nat where "h = 2 ^ m"
  have h: "0 < h" and len: "length xs = 2 * h"
    using Suc.prems by (simp_all add: h_def)
  have le: "length (evens xs) = 2 ^ m" and lo: "length (odds xs) = 2 ^ m"
    using len by (simp_all add: evens_def odds_def h_def)
  have big: "\<not> 2 * h \<le> 1"
    using h by simp
  have "fft (map Num xs)
          = fftCombine (2 * h) (fft (map Num (evens xs))) (fft (map Num (odds xs)))"
    by (subst fft.simps) (simp only: big if_False fftEven_Num [OF len] fftOdd_Num [OF len] len
          length_map)
  also have "\<dots> = fftCombine (2 * h) (interleaved (evens xs)) (interleaved (odds xs))"
    by (simp only: Suc.IH [OF le] Suc.IH [OF lo])
  also have "\<dots> = interleaved xs"
    by (rule fftCombine_dft [OF len h])
  finally show ?case .
qed

subsection \<open>The extraction\<close>

lemma pickedIndex_range:
  assumes "int N \<le> e - s" "i < N"
  shows "s \<le> pickedIndex s e N i" and "pickedIndex s e N i < e"
proof -
  have N: "0 < real N" using assms(2) by simp
  have T: "0 < real_of_int (e - s)" using assms by simp
  have "0 \<le> real i * (real_of_int (e - s) / real N)"
    using T N by simp
  then show "s \<le> pickedIndex s e N i"
    by (simp add: pickedIndex_def)
  have "real i * real_of_int (e - s) < real N * real_of_int (e - s)"
    using assms(2) T by (intro mult_strict_right_mono) simp_all
  then have "real i * (real_of_int (e - s) / real N) < real_of_int (e - s)"
    using N by (simp add: divide_less_eq mult.commute)
  then have "\<lfloor>real i * (real_of_int (e - s) / real N)\<rfloor> < e - s"
    by (simp add: floor_less_iff)
  then show "pickedIndex s e N i < e"
    by (simp add: pickedIndex_def)
qed

lemma pick_fold:
  assumes "int N \<le> e - s" "0 \<le> s" "e \<le> int (length chan)"
  shows "fold (pickStep chan s (real_of_int (e - s) / real N)) [0..<N] (replicate N (Num 0))
           = map Num (resampled chan s e N)"
proof -
  define g where "g = (\<lambda>i. Num (chan ! nat (pickedIndex s e N i)))"
  have same: "pickStep chan s (real_of_int (e - s) / real N) i = (\<lambda>a. a[i := (\<lambda>i v. g i) i (f32get a i)])"
    if "i \<in> set [0..<N]" for i
  proof -
    from that have i: "i < N" by simp
    note r = pickedIndex_range [OF assms(1) i]
    have "0 \<le> pickedIndex s e N i" "pickedIndex s e N i < int (length chan)"
      using r assms(2,3) by linarith+
    then show ?thesis
      by (intro ext) (simp add: pickStep_def readSample_def g_def pickedIndex_def Let_def)
  qed
  have "fold (pickStep chan s (real_of_int (e - s) / real N)) [0..<N] (replicate N (Num 0))
          = fold (\<lambda>i a. a[i := (\<lambda>i v. g i) i (f32get a i)]) [0..<N] (replicate N (Num 0))"
    by (rule fold_cong [OF refl refl same])
  also have "\<dots> = map g [0..<N]"
    by (subst fold_rmw) simp_all
  finally show ?thesis
    by (simp add: g_def resampled_def)
qed

lemma hann_fold:
  assumes "length rs = N" "2 \<le> N"
  shows "fold (hannStep N) [0..<N] (map Num rs) = map Num (map (\<lambda>i. rs ! i * hann N i) [0..<N])"
proof -
  have hv: "hannValue N i = Num (hann N i)" for i
    using assms(2) by (simp add: hannValue_def hann_def)
  have "hannStep N = (\<lambda>i a. a[i := (\<lambda>i v. jmul v (Num (hann N i))) i (f32get a i)])"
    by (intro ext) (simp add: hannStep_def hv)
  then have "fold (hannStep N) [0..<N] (map Num rs)
          = fold (\<lambda>i a. a[i := (\<lambda>i v. jmul v (Num (hann N i))) i (f32get a i)]) [0..<N] (map Num rs)"
    by simp
  also have "\<dots> = map (\<lambda>i. Num (rs ! i * hann N i)) [0..<N]"
    by (subst fold_rmw) (simp_all add: assms(1))
  finally show ?thesis by simp
qed

lemma magnitudeAt_dft:
  assumes "k < length xs"
  shows "magnitudeAt (interleaved xs) k = Num (cmod (dft xs k))"
proof -
  have "0 \<le> Re (dft xs k) * Re (dft xs k) + Im (dft xs k) * Im (dft xs k)"
    by simp
  then show ?thesis
    unfolding magnitudeAt_def Let_def interleaved_get [OF assms]
    by (simp add: cmod_def power2_eq_square not_less [symmetric])
qed

lemma extractSpectrum_dft:
  assumes "N = 2 ^ m" "int N \<le> e - s" "0 \<le> s" "e \<le> int (length chan)"
  shows "extractSpectrum chan s e N
           = map (\<lambda>k. Num (cmod (dft (windowed chan s e N) k))) [0..<N div 2]"
proof (cases m)
  case 0
  then have z: "N div 2 = 0" using assms(1) by simp
  have "length (extractSpectrum chan s e N) = N div 2"
    by (rule length_extractSpectrum)
  then have "length (extractSpectrum chan s e N) = 0"
    by (simp only: z)
  then have "extractSpectrum chan s e N = []"
    by (rule length_0_conv [THEN iffD1])
  then show ?thesis by (simp add: z)
next
  case (Suc m')
  define h :: nat where "h = 2 ^ m'"
  have N: "N = 2 * h" and h: "0 < h"
    using assms(1) Suc by (simp_all add: h_def)
  have N2: "2 \<le> N" using N h by simp
  define w where "w = windowed chan s e N"
  have lw: "length w = 2 ^ m"
    by (simp add: w_def windowed_def assms(1))
  have lr: "length (resampled chan s e N) = N"
    by (simp add: resampled_def)
  have aw: "fold (hannStep N) [0..<N]
              (fold (pickStep chan s (real_of_int (e - s) / real N)) [0..<N] (replicate N (Num 0)))
            = map Num w"
    unfolding pick_fold [OF assms(2,3,4)] hann_fold [OF lr N2] w_def windowed_def ..
  have mags: "fillLoop (halfCeil N) (magnitudeAt (interleaved w)) (replicate (N div 2) (Num 0))
                = map (\<lambda>k. Num (cmod (dft w k))) [0..<N div 2]"
  proof -
    have "fillLoop (halfCeil N) (magnitudeAt (interleaved w)) (replicate (N div 2) (Num 0))
            = map (magnitudeAt (interleaved w)) [0..<h]"
      unfolding N halfCeil_double by (subst fillLoop_map) simp_all
    also have "\<dots> = map (\<lambda>k. Num (cmod (dft w k))) [0..<h]"
      using lw assms(1) N by (intro map_cong refl magnitudeAt_dft) simp
    finally show ?thesis by (simp add: N)
  qed
  have "\<not> e - s < int N" using assms(2) by simp
  then show ?thesis
    unfolding extractSpectrum_def Let_def
    by (simp only: if_False aw [unfolded w_def] fft_interleaved [OF lw, unfolded w_def]
          mags [unfolded w_def])
qed

text \<open>
  C4. For a track with a first channel and a non-negative sample rate, \<open>fftSize\<close> a power of
  two and a window of at least \<open>fftSize\<close> samples, the spectrum is, for the bins
  \<open>[0, fftSize div 2)\<close>, the modulus \<open>sqrt (re^2 + im^2)\<close> of the textbook discrete Fourier
  transform of the windowed signal; that signal has \<open>fftSize\<close> points, point \<open>i\<close> being the
  sample of channel 0 picked inside the window at \<open>startSample + floor (i * totalSamples /
  fftSize)\<close> times \<open>0.5 * (1 - cos (2 pi i / (fftSize - 1)))\<close>; every magnitude is a
  non-negative number. (For \<open>fftSize = 1\<close> there is no bin.)
\<close>

theorem spectrum_reference:
  assumes "getChannelData (buffer tr) 0 = Inr chan"
    and "0 \<le> sampleRate (buffer tr)"
    and "fftSize = 2 ^ m"
    and "int fftSize \<le> endSampleOf tr ct wd (length chan) - startSampleOf tr ct wd"
  shows "getFrequencySpectrumForTimeWindow tr ct wd fftSize
           = Inr (map (\<lambda>k. Num (cmod (dft (windowed chan (startSampleOf tr ct wd)
                                              (endSampleOf tr ct wd (length chan)) fftSize) k)))
                    [0..<fftSize div 2])
       \<and> length (windowed chan (startSampleOf tr ct wd) (endSampleOf tr ct wd (length chan)) fftSize)
           = fftSize
       \<and> (\<forall>i<fftSize.
             startSampleOf tr ct wd
               \<le> pickedIndex (startSampleOf tr ct wd) (endSampleOf tr ct wd (length chan)) fftSize i
           \<and> pickedIndex (startSampleOf tr ct wd) (endSampleOf tr ct wd (length chan)) fftSize i
               < endSampleOf tr ct wd (length chan)
           \<and> windowed chan (startSampleOf tr ct wd) (endSampleOf tr ct wd (length chan)) fftSize ! i
               = chan ! nat (pickedIndex (startSampleOf tr ct wd)
                               (endSampleOf tr ct wd (length chan)) fftSize i)
                 * (0.5 * (1 - cos (2 * pi * real i / (real fftSize - 1)))))
       \<and> (\<forall>v \<in> set (map (\<lambda>k. Num (cmod (dft (windowed chan (startSampleOf tr ct wd)
                                              (endSampleOf tr ct wd (length chan)) fftSize) k)))
                    [0..<fftSize div 2]). \<exists>r. v = Num r \<and> 0 \<le> r)"
proof -
  let ?s = "startSampleOf tr ct wd" and ?e = "endSampleOf tr ct wd (length chan)"
  have s0: "0 \<le> ?s" using assms(2) by (rule startSampleOf_nonneg)
  have el: "?e \<le> int (length chan)" by (rule endSampleOf_le)
  have a: "getFrequencySpectrumForTimeWindow tr ct wd fftSize
           = Inr (map (\<lambda>k. Num (cmod (dft (windowed chan ?s ?e fftSize) k))) [0..<fftSize div 2])"
    by (simp only: spectrum_unfold [OF assms(1)] extractSpectrum_dft [OF assms(3,4) s0 el])
  have b: "length (windowed chan ?s ?e fftSize) = fftSize"
    by (simp add: windowed_def)
  have c: "?s \<le> pickedIndex ?s ?e fftSize i \<and> pickedIndex ?s ?e fftSize i < ?e
           \<and> windowed chan ?s ?e fftSize ! i
               = chan ! nat (pickedIndex ?s ?e fftSize i)
                 * (0.5 * (1 - cos (2 * pi * real i / (real fftSize - 1))))"
    if "i < fftSize" for i
    using pickedIndex_range [OF assms(4) that] that
    by (simp add: windowed_def resampled_def hann_def)
  have d: "\<exists>r. v = Num r \<and> 0 \<le> r"
    if "v \<in> set (map (\<lambda>k. Num (cmod (dft (windowed chan ?s ?e fftSize) k))) [0..<fftSize div 2])"
    for v
    using that by auto
  from a b c d show ?thesis
    by blast
qed

theorem spectrum_reference_witness:
  "getChannelData (buffer (mockTrack tone 4 1)) 0 = Inr tone
   \<and> 0 \<le> sampleRate (buffer (mockTrack tone 4 1))
   \<and> (4 :: nat) = 2 ^ 2
   \<and> int 4 \<le> endSampleOf (mockTrack tone 4 1) 1 1 (length tone) - startSampleOf (mockTrack tone 4 1) 1 1
   \<and> getFrequencySpectrumForTimeWindow (mockTrack tone 4 1) 1 1 4
       = Inr [Num (cmod (dft (windowed tone 0 4 4) 0)), Num (cmod (dft (windowed tone 0 4 4) 1))]
   \<and> resampled tone 0 4 4 = tone"
proof -
  let ?T = "mockTrack tone 4 1"
  have h1: "getChannelData (buffer ?T) 0 = Inr tone"
    by (simp add: mockTrack_def getChannelData_def)
  have h2: "0 \<le> sampleRate (buffer ?T)"
    by (simp add: mockTrack_def)
  have h3: "(4 :: nat) = 2 ^ 2" by simp
  have s: "startSampleOf ?T 1 1 = 0"
    by (simp add: startSampleOf_def adaptiveWindow_def dsub_def dmul_def mockTrack_def)
  have e: "endSampleOf ?T 1 1 (length tone) = 4"
    by (simp add: endSampleOf_def adaptiveWindow_def dsub_def dmul_def mockTrack_def tone_def)
  have h4: "int 4 \<le> endSampleOf ?T 1 1 (length tone) - startSampleOf ?T 1 1"
    by (simp only: s e)
  have r: "resampled tone 0 4 4 = tone"
    by (simp add: resampled_def pickedIndex_def tone_def upt_conv_Cons)
  have l: "[0..<(4 :: nat) div 2] = [0, 1]"
    by (simp add: upt_conv_Cons)
  from spectrum_reference [OF h1 h2 h3 h4]
  have "getFrequencySpectrumForTimeWindow ?T 1 1 4
          = Inr (map (\<lambda>k. Num (cmod (dft (windowed tone 0 4 4) k))) [0..<4 div 2])"
    unfolding s e by (rule conjunct1)
  then have "getFrequencySpectrumForTimeWindow ?T 1 1 4
       = Inr [Num (cmod (dft (windowed tone 0 4 4) 0)), Num (cmod (dft (windowed tone 0 4 4) 1))]"
    unfolding l by simp
  with h1 h2 h3 h4 r show ?thesis
    by blast
qed

section \<open>Adaptive window (C1)\<close>

lemma extractPeaks_peakOver:
  assumes "0 < e - s" "i < w"
  shows "extractPeaks chan s e w 0 ! i = peakOver chan (sampleBucket s e w i)"
proof -
  define a where "a = s + \<lfloor>dmul (real i) (ddiv (real_of_int (e - s)) (real w))\<rfloor>"
  define b where "b = min (s + \<lfloor>dmul (real (i + 1)) (ddiv (real_of_int (e - s)) (real w))\<rfloor>) e"
  have "extractPeaks chan s e w 0 ! i = bucketPeak chan a b"
    using assms by (simp add: extractPeaks_def Let_def a_def b_def)
  also have "\<dots> = Max (insert 0 ((\<lambda>j. \<bar>chan ! nat j\<bar>)
                        ` {j. a \<le> j \<and> j < b \<and> 0 \<le> j \<and> j < int (length chan)}))"
    by (rule bucketPeak_Max)
  also have "{j. a \<le> j \<and> j < b \<and> 0 \<le> j \<and> j < int (length chan)}
               = {a..<b} \<inter> {0..<int (length chan)}"
    by auto
  finally show ?thesis
    by (simp only: peakOver_def sampleBucket_def a_def b_def)
qed

lemma sampleBucket_subset:
  assumes "0 < e - s"
  shows "sampleBucket s e w i \<subseteq> {s..<e}"
proof -
  have "0 \<le> real_of_int (e - s) / real w"
    using assms by simp
  then have "0 \<le> ddiv (real_of_int (e - s)) (real w)"
    unfolding ddiv_def by (rule fl_nonneg)
  then have "0 \<le> real i * ddiv (real_of_int (e - s)) (real w)"
    by simp
  then have "0 \<le> dmul (real i) (ddiv (real_of_int (e - s)) (real w))"
    unfolding dmul_def by (rule fl_nonneg)
  then have "0 \<le> \<lfloor>dmul (real i) (ddiv (real_of_int (e - s)) (real w))\<rfloor>"
    by simp
  then show ?thesis
    by (auto simp: sampleBucket_def)
qed

lemma extractPeaks_movingAverage:
  "extractPeaks chan s e w sl
     = (if 0 < sl then movingAverage (extractPeaks chan s e w 0) sl
        else extractPeaks chan s e w 0)"
proof (cases "s < e")
  case True
  then show ?thesis
    by (simp add: extractPeaks_smoothed [of _ _ _ _ sl] applySmoothingFilter_movingAverage)
next
  case False
  then show ?thesis
    by (simp add: extractPeaks_degenerate movingAverage_zeros)
qed

text \<open>
  C1. Let \<open>window\<close> be \<open>[0, min windowDuration duration]\<close> when \<open>currentTime < windowDuration\<close>
  and \<open>[currentTime - windowDuration, currentTime]\<close> otherwise, \<open>s\<close> the floor of its start
  times the sample rate and \<open>e\<close> the floor of its end times the sample rate, capped by the
  number of samples (difference and products in binary64, as the source computes them).
  Then both extractions work on the samples \<open>[s, e)\<close> of channel 0: the waveform is all
  zero when \<open>e - s \<le> 0\<close> and otherwise its element \<open>i\<close> is the peak over a bucket inside
  \<open>[s, e)\<close> (followed by the moving average when smoothing is on); the spectrum is all zero
  when \<open>e - s < fftSize\<close> and otherwise, for a power of two, the magnitudes of the transform
  of samples picked inside \<open>[s, e)\<close>. Before the window is full, neither result depends on
  the value of \<open>currentTime\<close>.
\<close>

theorem adaptive_window_rule:
  assumes "getChannelData (buffer tr) 0 = Inr chan"
    and "window = (if ct < wd then (0, min wd (duration (buffer tr))) else (dsub ct wd, ct))"
    and "s = \<lfloor>dmul (fst window) (sampleRate (buffer tr))\<rfloor>"
    and "e = min \<lfloor>dmul (snd window) (sampleRate (buffer tr))\<rfloor> (int (length chan))"
  shows "(\<exists>wv. getWaveformDataForTimeWindow tr ct wd w 0 = Inr wv \<and> length wv = w
            \<and> (e - s \<le> 0 \<longrightarrow> wv = replicate w 0)
            \<and> (0 < e - s \<longrightarrow>
                  (\<forall>i<w. sampleBucket s e w i \<subseteq> {s..<e}
                        \<and> wv ! i = peakOver chan (sampleBucket s e w i)))
            \<and> (0 < sl \<longrightarrow>
                  getWaveformDataForTimeWindow tr ct wd w sl = Inr (movingAverage wv sl)))
       \<and> (\<exists>sp. getFrequencySpectrumForTimeWindow tr ct wd n = Inr sp \<and> length sp = n div 2
            \<and> (e - s < int n \<longrightarrow> sp = replicate (n div 2) (Num 0))
            \<and> (int n \<le> e - s \<and> 0 \<le> s \<and> (\<exists>m. n = 2 ^ m) \<longrightarrow>
                  sp = map (\<lambda>k. Num (cmod (dft (windowed chan s e n) k))) [0..<n div 2]
                \<and> (\<forall>i<n. s \<le> pickedIndex s e n i \<and> pickedIndex s e n i < e
                        \<and> windowed chan s e n ! i
                            = chan ! nat (pickedIndex s e n i) * hann n i)))
       \<and> (\<forall>ct'. ct < wd \<and> ct' < wd \<longrightarrow>
             getWaveformDataForTimeWindow tr ct' wd w sl
               = getWaveformDataForTimeWindow tr ct wd w sl
           \<and> getFrequencySpectrumForTimeWindow tr ct' wd n
               = getFrequencySpectrumForTimeWindow tr ct wd n)"
proof -
  have s: "s = startSampleOf tr ct wd"
    by (simp add: assms(2,3) startSampleOf_def adaptiveWindow_def)
  have e: "e = endSampleOf tr ct wd (length chan)"
    by (simp add: assms(2,4) endSampleOf_def adaptiveWindow_def)
  define wv where "wv = extractPeaks chan s e w 0"
  define sp where "sp = extractSpectrum chan s e n"
  have w0: "getWaveformDataForTimeWindow tr ct wd w sl' = Inr (extractPeaks chan s e w sl')" for sl'
    unfolding s e by (rule waveform_unfold [OF assms(1)])
  have s0: "getFrequencySpectrumForTimeWindow tr ct wd n = Inr sp"
    unfolding sp_def s e by (rule spectrum_unfold [OF assms(1)])
  have a1: "getWaveformDataForTimeWindow tr ct wd w 0 = Inr wv"
    by (simp add: w0 wv_def)
  have a2: "length wv = w"
    by (simp add: wv_def)
  have a3: "e - s \<le> 0 \<longrightarrow> wv = replicate w 0"
    by (simp add: wv_def extractPeaks_degenerate)
  have a4: "0 < e - s \<longrightarrow>
              (\<forall>i<w. sampleBucket s e w i \<subseteq> {s..<e}
                    \<and> wv ! i = peakOver chan (sampleBucket s e w i))"
    by (simp add: wv_def extractPeaks_peakOver sampleBucket_subset)
  have a5: "0 < sl \<longrightarrow> getWaveformDataForTimeWindow tr ct wd w sl = Inr (movingAverage wv sl)"
    by (simp add: w0 wv_def extractPeaks_movingAverage [of chan s e w sl])
  have b2: "length sp = n div 2"
    by (simp add: sp_def)
  have b3: "e - s < int n \<longrightarrow> sp = replicate (n div 2) (Num 0)"
    by (simp add: sp_def extractSpectrum_insufficient)
  have el: "e \<le> int (length chan)"
    by (simp add: assms(4))
  have b4: "sp = map (\<lambda>k. Num (cmod (dft (windowed chan s e n) k))) [0..<n div 2]
          \<and> (\<forall>i<n. s \<le> pickedIndex s e n i \<and> pickedIndex s e n i < e
                  \<and> windowed chan s e n ! i = chan ! nat (pickedIndex s e n i) * hann n i)"
    if "int n \<le> e - s \<and> 0 \<le> s \<and> (\<exists>m. n = 2 ^ m)"
  proof -
    from that obtain m where m: "n = 2 ^ m" and T: "int n \<le> e - s" and s0: "0 \<le> s"
      by blast
    have "sp = map (\<lambda>k. Num (cmod (dft (windowed chan s e n) k))) [0..<n div 2]"
      unfolding sp_def by (rule extractSpectrum_dft [OF m T s0 el])
    moreover have "s \<le> pickedIndex s e n i \<and> pickedIndex s e n i < e
                  \<and> windowed chan s e n ! i = chan ! nat (pickedIndex s e n i) * hann n i"
      if "i < n" for i
      using pickedIndex_range [OF T that] that by (simp add: windowed_def resampled_def)
    ultimately show ?thesis by blast
  qed
  have c: "getWaveformDataForTimeWindow tr ct' wd w sl = getWaveformDataForTimeWindow tr ct wd w sl
         \<and> getFrequencySpectrumForTimeWindow tr ct' wd n
             = getFrequencySpectrumForTimeWindow tr ct wd n"
    if "ct < wd \<and> ct' < wd" for ct'
    using that
    by (simp add: getWaveformDataForTimeWindow_def getFrequencySpectrumForTimeWindow_def)
  from a1 a2 a3 a4 a5 have A: "\<exists>wv. getWaveformDataForTimeWindow tr ct wd w 0 = Inr wv \<and> length wv = w
            \<and> (e - s \<le> 0 \<longrightarrow> wv = replicate w 0)
            \<and> (0 < e - s \<longrightarrow>
                  (\<forall>i<w. sampleBucket s e w i \<subseteq> {s..<e}
                        \<and> wv ! i = peakOver chan (sampleBucket s e w i)))
            \<and> (0 < sl \<longrightarrow>
                  getWaveformDataForTimeWindow tr ct wd w sl = Inr (movingAverage wv sl))"
    by blast
  from s0 b2 b3 b4 have B: "\<exists>sp. getFrequencySpectrumForTimeWindow tr ct wd n = Inr sp \<and> length sp = n div 2
            \<and> (e - s < int n \<longrightarrow> sp = replicate (n div 2) (Num 0))
            \<and> (int n \<le> e - s \<and> 0 \<le> s \<and> (\<exists>m. n = 2 ^ m) \<longrightarrow>
                  sp = map (\<lambda>k. Num (cmod (dft (windowed chan s e n) k))) [0..<n div 2]
                \<and> (\<forall>i<n. s \<le> pickedIndex s e n i \<and> pickedIndex s e n i < e
                        \<and> windowed chan s e n ! i
                            = chan ! nat (pickedIndex s e n i) * hann n i))"
    by blast
  from A B c show ?thesis
    by blast
qed

theorem adaptive_window_rule_witness:
  "getChannelData (buffer shortTrack) 0 = Inr [1 / 2, 1 / 4, 1 / 8]
   \<and> (0 :: real) < thirdOfSecond
   \<and> \<lfloor>dmul 0 (sampleRate (buffer shortTrack))\<rfloor> = 0
   \<and> min \<lfloor>dmul (min thirdOfSecond (duration (buffer shortTrack))) (sampleRate (buffer shortTrack))\<rfloor>
         (int (length [1 / 2, 1 / 4, 1 / 8 :: real])) = 1
   \<and> getWaveformDataForTimeWindow shortTrack 0 thirdOfSecond 1 0 = Inr [1 / 2]
   \<and> getWaveformDataForTimeWindow shortTrack (1 / 4) thirdOfSecond 1 0 = Inr [1 / 2]
   \<and> getChannelData (buffer longTrack) 0 = Inr [1 / 2, 1 / 2, 1 / 2, 1 / 2, 0, 1, 0, 1 / 4]
   \<and> \<not> (2 :: real) < 1
   \<and> \<lfloor>dmul (dsub 2 1) (sampleRate (buffer longTrack))\<rfloor> = 4
   \<and> min \<lfloor>dmul 2 (sampleRate (buffer longTrack))\<rfloor>
         (int (length [1 / 2, 1 / 2, 1 / 2, 1 / 2, 0, 1, 0, 1 / 4 :: real])) = 8
   \<and> getWaveformDataForTimeWindow longTrack 2 1 2 0 = Inr [1, 1 / 4]
   \<and> getFrequencySpectrumForTimeWindow longTrack 2 1 4 = Inr [Num (3 / 4), Num (3 / 4)]
   \<and> \<lfloor>dmul (ddiv 32 30) 44100\<rfloor> = 47040"
proof -
  let ?A = "[1 / 2, 1 / 4, 1 / 8 :: real]"
  let ?B = "[1 / 2, 1 / 2, 1 / 2, 1 / 2, 0, 1, 0, 1 / 4 :: real]"
  have cA: "getChannelData (buffer shortTrack) 0 = Inr ?A"
    by (simp add: shortTrack_def mockTrack_def getChannelData_def)
  have tA: "(0 :: real) < thirdOfSecond"
    by (simp add: thirdOfSecond_def)
  have wA: "(0, min thirdOfSecond (duration (buffer shortTrack)))
              = (if 0 < thirdOfSecond then (0, min thirdOfSecond (duration (buffer shortTrack)))
                 else (dsub 0 thirdOfSecond, 0))"
    using tA by simp
  have sA: "\<lfloor>dmul 0 (sampleRate (buffer shortTrack))\<rfloor> = 0"
    by (simp add: double_ops)
  have eA: "min \<lfloor>dmul (min thirdOfSecond (duration (buffer shortTrack)))
                       (sampleRate (buffer shortTrack))\<rfloor> (int (length ?A)) = 1"
    by (simp add: shortTrack_def mockTrack_def thirdOfSecond_def double_ops fl_eval)
  have bA: "sampleBucket 0 1 1 0 = {0}"
    by (auto simp add: sampleBucket_def double_ops)
  have pA: "peakOver ?A {0} = 1 / 2"
    by (simp add: peakOver_def)
  note A = adaptive_window_rule [OF cA wA, of 0 1 1 0 1, unfolded fst_conv snd_conv,
      OF sA [symmetric] eA [symmetric]]
  from A [THEN conjunct1] obtain wv where
    a1: "getWaveformDataForTimeWindow shortTrack 0 thirdOfSecond 1 0 = Inr wv" and
    a2: "length wv = 1" and
    a3: "0 < (1 :: int) - 0 \<longrightarrow> (\<forall>i<1. sampleBucket 0 1 1 i \<subseteq> {0..<1}
                  \<and> wv ! i = peakOver ?A (sampleBucket 0 1 1 i))"
    by (elim exE conjE) (rule that; assumption)
  from A [THEN conjunct2, THEN conjunct2, rule_format, of "1 / 4", THEN conjunct1]
  have a4: "0 < thirdOfSecond \<and> 1 / 4 < thirdOfSecond \<Longrightarrow>
             getWaveformDataForTimeWindow shortTrack (1 / 4) thirdOfSecond 1 0
               = getWaveformDataForTimeWindow shortTrack 0 thirdOfSecond 1 0" .
  from a3 have "wv ! 0 = 1 / 2"
    by (simp add: bA [unfolded One_nat_def] pA)
  with a2 have wvA: "wv = [1 / 2]"
    by (cases wv) simp_all
  have rA: "getWaveformDataForTimeWindow shortTrack 0 thirdOfSecond 1 0 = Inr [1 / 2]"
    using a1 wvA by simp
  have "(1 / 4 :: real) < thirdOfSecond"
    by (simp add: thirdOfSecond_def)
  with tA have "0 < thirdOfSecond \<and> 1 / 4 < thirdOfSecond" ..
  from a4 [OF this] rA
  have rA': "getWaveformDataForTimeWindow shortTrack (1 / 4) thirdOfSecond 1 0 = Inr [1 / 2]"
    by simp
  have cB: "getChannelData (buffer longTrack) 0 = Inr ?B"
    by (simp add: longTrack_def mockTrack_def getChannelData_def)
  have tB: "\<not> (2 :: real) < 1"
    by simp
  have wB: "(dsub 2 1, 2) = (if (2 :: real) < 1 then (0, min 1 (duration (buffer longTrack)))
                             else (dsub 2 1, 2))"
    by simp
  have sB: "\<lfloor>dmul (dsub 2 1) (sampleRate (buffer longTrack))\<rfloor> = 4"
    by (simp add: longTrack_def mockTrack_def double_ops)
  have eB: "min \<lfloor>dmul 2 (sampleRate (buffer longTrack))\<rfloor> (int (length ?B)) = 8"
    by (simp add: longTrack_def mockTrack_def double_ops)
  have bB: "sampleBucket 4 8 2 0 = {4, 5}" "sampleBucket 4 8 2 1 = {6, 7}"
    by (auto simp add: sampleBucket_def double_ops)
  have pB: "peakOver ?B {4, 5} = 1" "peakOver ?B {6, 7} = 1 / 4"
    by (simp_all add: peakOver_def)
  have wd: "windowed ?B 4 8 4 = [0, 3 / 4, 0, 0]"
    by (simp add: windowed_def resampled_def pickedIndex_def upt_conv_Cons hann_def cos_120)
  have df: "cmod (dft [0, 3 / 4, 0, 0] k) = 3 / 4" for k
    by (simp add: dft_def lessThan_Suc eval_nat_numeral norm_mult)
  note B = adaptive_window_rule [OF cB wB, of 4 8 2 0 4, unfolded fst_conv snd_conv,
      OF sB [symmetric] eB [symmetric]]
  from B [THEN conjunct1] obtain wv' where
    b1: "getWaveformDataForTimeWindow longTrack 2 1 2 0 = Inr wv'" and
    b2: "length wv' = 2" and
    b3: "0 < (8 :: int) - 4 \<longrightarrow> (\<forall>i<2. sampleBucket 4 8 2 i \<subseteq> {4..<8}
                  \<and> wv' ! i = peakOver ?B (sampleBucket 4 8 2 i))"
    by (elim exE conjE) (rule that; assumption)
  from B [THEN conjunct2, THEN conjunct1] obtain sp where
    b4: "getFrequencySpectrumForTimeWindow longTrack 2 1 4 = Inr sp" and
    b5: "int 4 \<le> (8 :: int) - 4 \<and> (0 :: int) \<le> 4 \<and> (\<exists>m. (4 :: nat) = 2 ^ m) \<longrightarrow>
           sp = map (\<lambda>k. Num (cmod (dft (windowed ?B 4 8 4) k))) [0..<4 div 2]
         \<and> (\<forall>i<4. 4 \<le> pickedIndex 4 8 4 i \<and> pickedIndex 4 8 4 i < 8
                 \<and> windowed ?B 4 8 4 ! i = ?B ! nat (pickedIndex 4 8 4 i) * hann 4 i)"
    by (elim exE conjE) (rule that; assumption)
  have i0: "(0 :: nat) < 2" and i1: "(1 :: nat) < 2" by simp_all
  from b3 have b3': "\<forall>i<2. sampleBucket 4 8 2 i \<subseteq> {4..<8}
                  \<and> wv' ! i = peakOver ?B (sampleBucket 4 8 2 i)"
    by simp
  from b3' [rule_format, OF i0] b3' [rule_format, OF i1]
  have "wv' ! 0 = 1 \<and> wv' ! 1 = 1 / 4"
    by (simp add: bB bB [unfolded One_nat_def] pB)
  with b2 have wvB: "wv' = [1, 1 / 4]"
    by (cases wv'; cases "tl wv'") auto
  have "\<exists>m. (4 :: nat) = 2 ^ m"
    by (rule exI [of _ 2]) simp
  with b5 have "sp = map (\<lambda>k. Num (cmod (dft (windowed ?B 4 8 4) k))) [0..<4 div 2]"
    by (simp del: One_nat_def)
  then have spB: "sp = [Num (3 / 4), Num (3 / 4)]"
    by (simp add: wd df upt_conv_Cons)
  have fr: "\<lfloor>dmul (ddiv 32 30) 44100\<rfloor> = 47040"
    by (simp add: double_ops fl_eval)
  from cA tA sA eA rA rA' cB tB sB eB b1 wvB b4 spB fr show ?thesis
    by simp
qed

section \<open>Peak-hold downsampling (C2)\<close>

lemma s15: "startSampleOf (mockTrack fifteen 15 1) 1 1 = 0"
  by (simp add: startSampleOf_def adaptiveWindow_def mockTrack_def double_ops)

lemma e15: "endSampleOf (mockTrack fifteen 15 1) 1 1 (length fifteen) = 15"
  by (simp add: endSampleOf_def adaptiveWindow_def mockTrack_def double_ops fifteen_def)

lemma spp: "ddiv 15 11 = 6141272219141585 / 4503599627370496"
  by (simp add: double_ops fl_eval)

lemma products:
  "dmul 1 (6141272219141585 / 4503599627370496) = 6141272219141585 / 4503599627370496"
  "dmul 2 (6141272219141585 / 4503599627370496) = 6141272219141585 / 2251799813685248"
  "dmul 3 (6141272219141585 / 4503599627370496) = 4605954164356189 / 1125899906842624"
  "dmul 4 (6141272219141585 / 4503599627370496) = 6141272219141585 / 1125899906842624"
  "dmul 5 (6141272219141585 / 4503599627370496) = 7676590273926981 / 1125899906842624"
  "dmul 6 (6141272219141585 / 4503599627370496) = 4605954164356189 / 562949953421312"
  "dmul 7 (6141272219141585 / 4503599627370496) = 5373613191748887 / 562949953421312"
  "dmul 8 (6141272219141585 / 4503599627370496) = 6141272219141585 / 562949953421312"
  "dmul 9 (6141272219141585 / 4503599627370496) = 6908931246534283 / 562949953421312"
  "dmul 10 (6141272219141585 / 4503599627370496) = 7676590273926981 / 562949953421312"
  "dmul 11 (6141272219141585 / 4503599627370496) = 8444249301319679 / 562949953421312"
  by (simp_all add: double_ops fl_eval)

lemma extractPeaks_unsmoothed:
  assumes "s < e"
  shows "extractPeaks chan s e w 0
           = map (\<lambda>i. bucketPeak chan
                   (s + \<lfloor>dmul (real i) (ddiv (real_of_int (e - s)) (real w))\<rfloor>)
                   (min (s + \<lfloor>dmul (real (i + 1)) (ddiv (real_of_int (e - s)) (real w))\<rfloor>) e))
               [0..<w]"
  using assms by (simp add: extractPeaks_def Let_def)

lemma w15: "extractPeaks fifteen 0 15 11 0
   = [1 / 16, 1 / 8, 1 / 4, 5 / 16, 3 / 8, 1 / 2, 9 / 16, 5 / 8, 3 / 4, 13 / 16, 7 / 8]"
proof -
  have z: "dmul 0 x = 0" for x
    by (simp add: dmul_def)
  show ?thesis
    by (simp add: extractPeaks_unsmoothed spp upt_conv_Cons z products bucketPeak_def
          peakStep_def upto.simps fifteen_def)
qed

lemma realistic: "\<lfloor>dmul 1300 (ddiv 44100 1300)\<rfloor> = 44099"
  by (simp add: double_ops fl_eval)

lemma buckets15:
  "sampleBucket 0 15 11 0 = {0}" "sampleBucket 0 15 11 1 = {1}" "sampleBucket 0 15 11 2 = {2, 3}"
  "sampleBucket 0 15 11 3 = {4}" "sampleBucket 0 15 11 4 = {5}" "sampleBucket 0 15 11 5 = {6, 7}"
  "sampleBucket 0 15 11 6 = {8}" "sampleBucket 0 15 11 7 = {9}" "sampleBucket 0 15 11 8 = {10, 11}"
  "sampleBucket 0 15 11 9 = {12}" "sampleBucket 0 15 11 10 = {13}"
  by (auto simp add: sampleBucket_def spp products dmul_def [of 0])

lemma union15: "(\<Union>i<11. sampleBucket 0 15 11 i) = {0..<14}"
proof -
  have n: "{..<11 :: nat} = {0, 1, 2, 3, 4, 5, 6, 7, 8, 9, 10}"
    by auto arith
  have i: "{0..<14 :: int} = set [0..13]"
    by auto
  have "(\<Union>i<11. sampleBucket 0 15 11 i) = {0, 1, 2, 3, 4, 5, 6, 7, 8, 9, 10, 11, 12, 13}"
    unfolding n by (simp add: buckets15 buckets15(2) [unfolded One_nat_def] insert_commute)
  also have "\<dots> = {0..<14}"
    unfolding i by (simp add: upto.simps insert_commute)
  finally show ?thesis .
qed

text \<open>
  C2. Peak-hold downsampling at a window of fifteen samples and eleven pixels: a track of
  fifteen rising samples at 15 Hz, read at \<open>currentTime = windowDuration = 1\<close>, so that
  the window is \<open>[0, 15)\<close>. Each pixel is the peak of its bucket, but \<open>samplesPerPixel\<close>
  is the binary64 quotient \<open>15 / 11\<close> and its binary64 product with 11 lies below 15:
  the last bucket is \<open>[13, 14)\<close>, the eleven buckets cover \<open>[0, 14)\<close> only, sample 14
  (the largest, \<open>15/16\<close>) is in none of them and the last pixel is \<open>7/8\<close>. With the
  44100 samples of a one-second window the same happens at a width of 1300 pixels, where
  the last bucket ends at sample 44099.
\<close>

theorem peak_hold_downsampling_last_sample:
  "startSampleOf (mockTrack fifteen 15 1) 1 1 = 0
   \<and> endSampleOf (mockTrack fifteen 15 1) 1 1 (length fifteen) = 15
   \<and> getWaveformDataForTimeWindow (mockTrack fifteen 15 1) 1 1 11 0
       = Inr [1 / 16, 1 / 8, 1 / 4, 5 / 16, 3 / 8, 1 / 2, 9 / 16, 5 / 8, 3 / 4, 13 / 16, 7 / 8]
   \<and> sampleBucket 0 15 11 10 = {13}
   \<and> (\<Union>i<11. sampleBucket 0 15 11 i) = {0..<14}
   \<and> fifteen ! 14 = 15 / 16
   \<and> \<lfloor>dmul 1300 (ddiv 44100 1300)\<rfloor> = 44099"
proof -
  have c: "getChannelData (buffer (mockTrack fifteen 15 1)) 0 = Inr fifteen"
    by (simp add: mockTrack_def getChannelData_def)
  have w: "getWaveformDataForTimeWindow (mockTrack fifteen 15 1) 1 1 11 0
       = Inr [1 / 16, 1 / 8, 1 / 4, 5 / 16, 3 / 8, 1 / 2, 9 / 16, 5 / 8, 3 / 4, 13 / 16, 7 / 8]"
    unfolding waveform_unfold [OF c] s15 e15 w15 ..
  have l: "fifteen ! 14 = 15 / 16"
    by (simp add: fifteen_def)
  from s15 e15 w buckets15(11) union15 l realistic show ?thesis
    by (intro conjI)
qed

section \<open>Offline frame driver (C7)\<close>

lemma captureLoop_unroll:
  "captureLoop renderFrame fps n i (frames, trace) =
     (frames @ map (\<lambda>k. renderFrame (ddiv (real_of_int k) fps)) [i..n - 1],
      trace @ concat (map (\<lambda>k. frameEvents fps k @
                 (if k mod 10 = 0
                  then [Progress (ddiv (real_of_int k) (real_of_int n)), Yield] else []))
               [i..n - 1]))"
proof (induction renderFrame fps n i "(frames, trace)" arbitrary: frames trace
       rule: captureLoop.induct)
  case (1 renderFrame fps n i frames trace)
  show ?case
  proof (cases "i < n")
    case True
    then have up: "[i..n - 1] = i # [i + 1..n - 1]"
      by (simp add: upto_rec1)
    show ?thesis
      using True "1" [OF True refl refl refl]
      by (subst captureLoop.simps) (simp add: up frameEvents_def Let_def)
  next
    case False
    then show ?thesis
      by (subst captureLoop.simps) simp
  qed
qed

lemma filter_frameEvents:
  "filter isFrameEvent (concat (map (\<lambda>k. frameEvents fps k @
        (if k mod 10 = 0 then [Progress (p k), Yield] else [])) ks))
     = concat (map (frameEvents fps) ks)"
  by (induction ks) (simp_all add: isFrameEvent_def frameEvents_def)

text \<open>
  C7. For \<open>duration > 0\<close> and \<open>fps > 0\<close> the export loop produces exactly
  \<open>ceil (duration * fps)\<close> frames, the product being the binary64 product the source
  computes; frame \<open>i\<close> is the image rendered at \<open>currentTime = i / fps\<close>, the binary64
  quotient of the index and the rate, and in the trace every renderer call is followed by
  the capture of that frame before the next call. The time is computed from the index
  alone: it equals \<open>i / fps\<close> exactly whenever that quotient is a binary64 number, and in
  general differs from it by at most the relative rounding error \<open>2^-53\<close> of one division,
  whatever the number of frames before it.
\<close>

theorem offline_frame_driver:
  assumes "0 < dur" and "0 < fps"
  shows "fst (captureFrames renderFrame dur fps)
           = map (\<lambda>i. renderFrame (ddiv (real_of_int i) fps)) [0..\<lceil>dmul dur fps\<rceil> - 1]
       \<and> int (length (fst (captureFrames renderFrame dur fps))) = \<lceil>dmul dur fps\<rceil>
       \<and> filter isFrameEvent (snd (captureFrames renderFrame dur fps))
           = concat (map (\<lambda>i. [Render (ddiv (real_of_int i) fps), Capture])
                       [0..\<lceil>dmul dur fps\<rceil> - 1])
       \<and> (\<forall>i m k. real_of_int i / fps = of_int m * 2 powi k
                  \<and> \<bar>m\<bar> < 9007199254740992 \<and> - 1074 \<le> k
              \<longrightarrow> ddiv (real_of_int i) fps = real_of_int i / fps)
       \<and> (\<forall>i. 2 powi (- 1022) \<le> real_of_int i / fps
              \<longrightarrow> \<bar>ddiv (real_of_int i) fps - real_of_int i / fps\<bar>
                    \<le> real_of_int i / fps * 2 powi (- 53))"
proof -
  have "0 \<le> dur * fps" using assms by simp
  then have "0 \<le> dmul dur fps"
    unfolding dmul_def by (rule fl_nonneg)
  then have n: "0 \<le> \<lceil>dmul dur fps\<rceil>" by linarith
  have fe: "frameEvents fps = (\<lambda>i. [Render (ddiv (real_of_int i) fps), Capture])"
    by (rule ext) (simp add: frameEvents_def)
  have cf: "captureFrames renderFrame dur fps =
     (map (\<lambda>k. renderFrame (ddiv (real_of_int k) fps)) [0..\<lceil>dmul dur fps\<rceil> - 1],
      concat (map (\<lambda>k. frameEvents fps k @
                 (if k mod 10 = 0
                  then [Progress (ddiv (real_of_int k) (real_of_int \<lceil>dmul dur fps\<rceil>)), Yield]
                  else []))
               [0..\<lceil>dmul dur fps\<rceil> - 1]))"
    by (simp only: captureFrames_def Let_def captureLoop_unroll append_Nil)
  have tr: "filter isFrameEvent (snd (captureFrames renderFrame dur fps))
          = concat (map (frameEvents fps) [0..\<lceil>dmul dur fps\<rceil> - 1])"
    by (simp only: cf snd_conv filter_frameEvents)
  have ex: "ddiv (real_of_int i) fps = real_of_int i / fps"
    if "real_of_int i / fps = of_int m * 2 powi k \<and> \<bar>m\<bar> < 9007199254740992 \<and> - 1074 \<le> k"
    for i m k
    unfolding ddiv_def using that by (intro fl_exact [of _ m k]) simp_all
  have er: "\<bar>ddiv (real_of_int i) fps - real_of_int i / fps\<bar> \<le> real_of_int i / fps * 2 powi (- 53)"
    if "2 powi (- 1022) \<le> real_of_int i / fps" for i
  proof -
    have p: "0 \<le> real_of_int i / fps"
      using that by (rule order_trans [rotated]) simp
    then have a: "\<bar>real_of_int i / fps\<bar> = real_of_int i / fps"
      by (rule abs_of_nonneg)
    from that have "2 powi (- 1022) \<le> \<bar>real_of_int i / fps\<bar>"
      by (simp only: a)
    from fl_error [OF this] show ?thesis
      by (simp only: ddiv_def a)
  qed
  have 1: "fst (captureFrames renderFrame dur fps)
           = map (\<lambda>i. renderFrame (ddiv (real_of_int i) fps)) [0..\<lceil>dmul dur fps\<rceil> - 1]"
    by (simp add: cf)
  have 2: "int (length (fst (captureFrames renderFrame dur fps))) = \<lceil>dmul dur fps\<rceil>"
    using n by (simp add: cf)
  have 3: "filter isFrameEvent (snd (captureFrames renderFrame dur fps))
           = concat (map (\<lambda>i. [Render (ddiv (real_of_int i) fps), Capture])
                       [0..\<lceil>dmul dur fps\<rceil> - 1])"
    by (simp add: tr fe)
  from 1 2 3 ex er show ?thesis
    by blast
qed

theorem offline_frame_driver_witness:
  "(0 :: real) < 2 \<and> (0 :: real) < 10 \<and> (0 :: real) < tenthOfSecond
   \<and> length (fst (captureFrames (\<lambda>t. t) 2 10)) = 20
   \<and> fst (captureFrames (\<lambda>t. t) 2 10) ! 5 = 1 / 2
   \<and> fst (captureFrames (\<lambda>t. t) 2 10) ! 3 = 5404319552844595 / 18014398509481984
   \<and> dadd (dadd (ddiv 1 10) (ddiv 1 10)) (ddiv 1 10) = 1351079888211149 / 4503599627370496
   \<and> length (fst (captureFrames (\<lambda>t. t) tenthOfSecond 10)) = 1
   \<and> (0 :: real) < ddiv 12348 44100 \<and> (0 :: real) < 25
   \<and> length (fst (captureFrames (\<lambda>t. t) (ddiv 12348 44100) 25)) = 8"
proof -
  have h1: "(0 :: real) < 2" and h2: "(0 :: real) < 10" by simp_all
  have h3: "(0 :: real) < tenthOfSecond" by (simp add: tenthOfSecond_def)
  have c: "\<lceil>dmul 2 10\<rceil> = 20" by (simp add: double_ops)
  have c': "\<lceil>dmul tenthOfSecond 10\<rceil> = 1"
    by (simp add: tenthOfSecond_def double_ops fl_eval)
  note T = offline_frame_driver [OF h1 h2, of "\<lambda>t. t"]
  from T [THEN conjunct1]
  have f: "fst (captureFrames (\<lambda>t. t) 2 10) = map (\<lambda>i. ddiv (real_of_int i) 10) [0..19]"
    by (simp add: c)
  from T [THEN conjunct2, THEN conjunct1]
  have l: "length (fst (captureFrames (\<lambda>t. t) 2 10)) = 20"
    by (simp add: c)
  have five: "real_of_int 5 / 10 = of_int 1 * 2 powi (- 1) \<and> \<bar>1 :: int\<bar> < 9007199254740992
                \<and> (- 1074 :: int) \<le> - 1"
    by simp
  from T [THEN conjunct2, THEN conjunct2, THEN conjunct2, THEN conjunct1, rule_format, OF five]
  have e5: "ddiv 5 10 = 1 / 2"
    by simp
  have n5: "fst (captureFrames (\<lambda>t. t) 2 10) ! 5 = ddiv 5 10"
    by (simp add: f upto.simps)
  have n3: "fst (captureFrames (\<lambda>t. t) 2 10) ! 3 = 5404319552844595 / 18014398509481984"
    by (simp add: f upto.simps) (simp add: double_ops fl_eval)
  have acc: "dadd (dadd (ddiv 1 10) (ddiv 1 10)) (ddiv 1 10) = 1351079888211149 / 4503599627370496"
    by (simp add: double_ops fl_eval)
  from offline_frame_driver [OF h3 h2, of "\<lambda>t. t", THEN conjunct2, THEN conjunct1]
  have l': "length (fst (captureFrames (\<lambda>t. t) tenthOfSecond 10)) = 1"
    by (simp add: c')
  have h4: "(0 :: real) < ddiv 12348 44100" and h5: "(0 :: real) < 25"
    by (simp_all add: double_ops fl_eval)
  have c'': "\<lceil>dmul (ddiv 12348 44100) 25\<rceil> = 8"
    by (simp add: double_ops fl_eval)
  from offline_frame_driver [OF h4 h5, of "\<lambda>t. t", THEN conjunct2, THEN conjunct1]
  have l'': "length (fst (captureFrames (\<lambda>t. t) (ddiv 12348 44100) 25)) = 8"
    by (simp add: c'')
  from h1 h2 h3 l n5 e5 n3 acc l' h4 h5 l'' show ?thesis
    by simp
qed

section \<open>Progressive reveal (C8)\<close>

lemma filter_prefix:
  "filter (\<lambda>x. int x < m) [0..<w] = [0..<nat (min m (int w))]"
proof (induction w)
  case 0
  then show ?case by simp
next
  case (Suc w)
  show ?case
  proof (cases "int w < m")
    case True
    then have "nat (min m (int w)) = w" "nat (min m (int (Suc w))) = Suc w"
      by simp_all
    with Suc True show ?thesis by simp
  next
    case False
    then have "min m (int (Suc w)) = min m (int w)"
      by simp
    with Suc False show ?thesis by simp
  qed
qed

lemma revealed_upt:
  "[0..<nat (min (revealMaxX dims ct wd) (int (width dims)))] = revealedColumns dims ct wd"
proof (cases "ct < wd")
  case True
  then show ?thesis
    by (simp add: revealMaxX_def revealedColumns_def filter_prefix)
next
  case False
  then show ?thesis
    by (simp add: revealMaxX_def revealedColumns_def)
qed

lemma renderTrack_stroke:
  assumes "channelData (buffer tr) \<noteq> []"
  shows "renderTrackRealtimeWithAmplitude dims tr ct cy ma mode gm sl wd
           = Inr \<lparr>strokeStyle = (color tr, opacity tr), lineWidth = 2,
                  path = map (trackLine (waveformOf tr ct wd (width dims) sl) cy ma mode gm)
                           (revealedColumns dims ct wd)\<rparr>"
  by (simp add: renderTrackRealtimeWithAmplitude_def waveform_total [OF assms] revealed_upt)

lemma renderAdditive_strokes:
  assumes "\<forall>t \<in> set tracks. channelData (buffer t) \<noteq> []"
  shows "renderTracksAdditive dims tracks ct cy ma mode gm sl wd
           = Inr (concat (map (additiveColumn tracks
                                 (map (\<lambda>t. waveformOf t ct wd (width dims) sl) tracks)
                                 cy ma mode gm)
                    (revealedColumns dims ct wd)))"
proof -
  have col: "collect (map (\<lambda>t. getWaveformDataForTimeWindow t ct wd (width dims) sl) tracks)
               = Inr (map (\<lambda>t. waveformOf t ct wd (width dims) sl) tracks)"
    by (rule collect_all_Inr) (use assms in \<open>simp add: waveform_total\<close>)
  show ?thesis
    by (simp add: renderTracksAdditive_def col revealed_upt)
qed

lemma forEachTrack_Inr:
  assumes "\<And>k. k < length tracks \<Longrightarrow> f k (tracks ! k) = Inr (g k)"
  shows "forEachTrack f tracks = Inr (map g [0..<length tracks])"
proof -
  have "collect (map (\<lambda>(index, track). f index track) (zip [0..<length tracks] tracks))
          = Inr (map (\<lambda>(index, track). g index) (zip [0..<length tracks] tracks))"
    by (rule collect_all_Inr) (use assms in \<open>auto simp: set_zip\<close>)
  moreover have "map (\<lambda>(index, track). g index) (zip [0..<length tracks] tracks)
                   = map g [0..<length tracks]"
    by (intro nth_equalityI) simp_all
  ultimately show ?thesis
    by (simp add: forEachTrack_def)
qed

lemma globalMax_total:
  assumes "\<forall>t \<in> set tracks. channelData (buffer t) \<noteq> []"
  shows "\<exists>gm. (if mode = Normalized \<and> length tracks > 0
               then calculateGlobalMaxAmplitude dims tracks ct wd else Inr 1.0) = Inr gm
            \<and> (mode = Normalized \<and> tracks \<noteq> [] \<longrightarrow>
                  calculateGlobalMaxAmplitude dims tracks ct wd = Inr gm)
            \<and> (mode = Individual \<longrightarrow> gm = 1)"
proof (cases "mode = Normalized \<and> length tracks > 0")
  case True
  from globalMax_bound [OF assms, of dims ct wd] obtain g where
    "calculateGlobalMaxAmplitude dims tracks ct wd = Inr g"
    by blast
  with True show ?thesis by auto
next
  case False
  then show ?thesis by (cases mode) auto
qed

lemma render_lines:
  assumes "tracks \<noteq> []" and "\<forall>t \<in> set tracks. channelData (buffer t) \<noteq> []"
    and "layout = Overlay \<or> layout = Stacked"
    and "(if mode = Normalized \<and> length tracks > 0
          then calculateGlobalMaxAmplitude dims tracks ct wd else Inr 1.0) = Inr gm"
  shows "render canvas dims tracks ct dur layout mode hp sl wd
           = Inr (FillRect ''#000000'' 0 0 (real (fst canvas)) (real (snd canvas))
                  # map StrokePath
                      (map (\<lambda>k. \<lparr>strokeStyle = (color (tracks ! k), opacity (tracks ! k)),
                                  lineWidth = 2,
                                  path = map (trackLine (waveformOf (tracks ! k) ct wd (width dims) sl)
                                                (bandCenter dims layout (length tracks) k)
                                                (bandAmplitude dims layout hp) mode gm)
                                           (revealedColumns dims ct wd)\<rparr>)
                         [0..<length tracks])
                  @ [renderTimeIndicator dims ct wd])"
proof -
  have ne: "length tracks \<noteq> 0" using assms(1) by simp
  have ch: "channelData (buffer (tracks ! k)) \<noteq> []" if "k < length tracks" for k
    using assms(2) that by simp
  show ?thesis
  proof (cases "layout = Stacked")
    case True
    have "renderTracksStacked dims tracks ct mode gm hp sl wd
            = Inr (map (\<lambda>k. \<lparr>strokeStyle = (color (tracks ! k), opacity (tracks ! k)),
                                  lineWidth = 2,
                                  path = map (trackLine (waveformOf (tracks ! k) ct wd (width dims) sl)
                                                (bandCenter dims layout (length tracks) k)
                                                (bandAmplitude dims layout hp) mode gm)
                                           (revealedColumns dims ct wd)\<rparr>)
                         [0..<length tracks])"
      unfolding renderTracksStacked_def Let_def
      by (rule forEachTrack_Inr)
         (simp add: renderTrack_stroke [OF ch] bandCenter_def bandAmplitude_def True
            heightPercentToPixels_def)
    then show ?thesis
      using ne True by (simp only: render_def Let_def assms(4)) simp
  next
    case False
    with assms(3) have ov: "layout = Overlay" by simp
    have "forEachTrack (\<lambda>index track.
             renderTrackRealtimeWithAmplitude dims track ct (centerY dims)
               (heightPercentToPixels dims hp) mode gm sl wd) tracks
            = Inr (map (\<lambda>k. \<lparr>strokeStyle = (color (tracks ! k), opacity (tracks ! k)),
                                  lineWidth = 2,
                                  path = map (trackLine (waveformOf (tracks ! k) ct wd (width dims) sl)
                                                (bandCenter dims layout (length tracks) k)
                                                (bandAmplitude dims layout hp) mode gm)
                                           (revealedColumns dims ct wd)\<rparr>)
                         [0..<length tracks])"
      by (rule forEachTrack_Inr)
         (simp add: renderTrack_stroke [OF ch] bandCenter_def bandAmplitude_def ov
            heightPercentToPixels_def)
    then show ?thesis
      using ne ov by (simp only: render_def Let_def assms(4)) simp
  qed
qed

lemma render_additive:
  assumes "tracks \<noteq> []" and "\<forall>t \<in> set tracks. channelData (buffer t) \<noteq> []"
    and "(if mode = Normalized \<and> length tracks > 0
          then calculateGlobalMaxAmplitude dims tracks ct wd else Inr 1.0) = Inr gm"
  shows "render canvas dims tracks ct dur OverlayAdditive mode hp sl wd
           = Inr (FillRect ''#000000'' 0 0 (real (fst canvas)) (real (snd canvas))
                  # map StrokePath
                      (concat (map (additiveColumn tracks
                                      (map (\<lambda>t. waveformOf t ct wd (width dims) sl) tracks)
                                      (centerY dims) (heightPercentToPixels dims hp) mode gm)
                                 (revealedColumns dims ct wd)))
                  @ [renderTimeIndicator dims ct wd])"
proof -
  have ne: "length tracks \<noteq> 0" using assms(1) by simp
  show ?thesis
    using ne
    by (simp only: render_def Let_def assms(3) renderAdditive_strokes [OF assms(2)]) simp
qed

lemma stackUpper_single:
  "s \<in> set (stackUpper x sf ma zs cy)
     \<Longrightarrow> \<exists>l. path s = [l] \<and> line_x l = x \<and> 1 / 2 < \<bar>y_end l - y_start l\<bar>"
proof (induction zs arbitrary: cy)
  case Nil
  then show ?case by simp
next
  case (Cons z zs)
  obtain tr a where z: "z = (tr, a)" by (cases z)
  show ?case
    using Cons.prems Cons.IH
    by (auto simp: z Let_def split: if_splits)
qed

lemma stackLower_single:
  "s \<in> set (stackLower x sf ma zs cy)
     \<Longrightarrow> \<exists>l. path s = [l] \<and> line_x l = x \<and> 1 / 2 < \<bar>y_end l - y_start l\<bar>"
proof (induction zs arbitrary: cy)
  case Nil
  then show ?case by simp
next
  case (Cons z zs)
  obtain tr a where z: "z = (tr, a)" by (cases z)
  show ?case
    using Cons.prems Cons.IH
    by (auto simp: z Let_def split: if_splits)
qed

lemma additiveColumn_single:
  "s \<in> set (additiveColumn tracks wfs cy ma mode gm x)
     \<Longrightarrow> \<exists>l. path s = [l] \<and> line_x l = x \<and> 1 / 2 < \<bar>y_end l - y_start l\<bar>"
  by (auto simp: additiveColumn_def Let_def dest: stackUpper_single stackLower_single)

lemma filter_concat_column:
  assumes "distinct cols" and "x \<in> set cols"
    and "\<And>c s. c \<in> set cols \<Longrightarrow> s \<in> set (F c) \<Longrightarrow> columnsOf s = {c}"
  shows "filter (\<lambda>s. columnsOf s = {x}) (concat (map F cols)) = F x"
  using assms
proof (induction cols)
  case Nil
  then show ?case by simp
next
  case (Cons c cols)
  have own: "filter (\<lambda>s. columnsOf s = {c'}) (F c') = F c'" if "c' \<in> set (c # cols)" for c'
    using Cons.prems(3) [OF that] by (simp add: filter_id_conv)
  have other: "filter (\<lambda>s. columnsOf s = {x}) (F c') = []" if "c' \<in> set (c # cols)" "c' \<noteq> x" for c'
    using Cons.prems(3) [OF that(1)] that(2) by (auto simp: filter_empty_conv)
  show ?case
  proof (cases "x = c")
    case True
    then have "x \<notin> set cols" using Cons.prems(1) by simp
    then have "filter (\<lambda>s. columnsOf s = {x}) (concat (map F cols)) = []"
      using other by (induction cols) auto
    then show ?thesis
      using own [of c] True by simp
  next
    case False
    with Cons.prems have "x \<in> set cols" "distinct cols" by simp_all
    then have "filter (\<lambda>s. columnsOf s = {x}) (concat (map F cols)) = F x"
      using Cons.IH Cons.prems(3) by simp
    then show ?thesis
      using other [of c] False by simp
  qed
qed

lemma distinct_revealedColumns [simp]: "distinct (revealedColumns dims ct wd)"
  by (simp add: revealedColumns_def)

lemma revealed_less: "x \<in> set (revealedColumns dims ct wd) \<Longrightarrow> x < width dims"
  by (simp add: revealedColumns_def)

lemma additiveColumn_count:
  assumes "x < width dims"
  shows "length (additiveColumn tracks (map (\<lambda>t. waveformOf t ct wd (width dims) sl) tracks)
                   cy (heightPercentToPixels dims hp) mode gm x)
           = 2 * length (filter (\<lambda>h. 1 / 2 < h) (segmentHeights dims tracks ct wd mode gm hp sl x))"
proof -
  define amps where "amps = map (\<lambda>t. normalizeAmplitude mode gm
                                        (waveformOf t ct wd (width dims) sl ! x)) tracks"
  define sf where "sf = (if 1 < sum_list amps then 1 / sum_list amps else 1)"
  define ma where "ma = hp / 100 * real (height dims)"
  have ca: "columnAmplitudes (map (\<lambda>t. waveformOf t ct wd (width dims) sl) tracks) x mode gm = amps"
    using assms by (simp add: columnAmplitudes_def amps_def comp_def)
  have sc: "additiveScaleFactor amps = sf"
    by (simp add: additiveScaleFactor_eq sf_def)
  have len: "length tracks = length amps"
    by (simp add: amps_def)
  have "length (filter (\<lambda>z. snd z * sf * ma > 1 / 2) (zip tracks amps))
          = length (filter (\<lambda>a. a * sf * ma > 1 / 2) (map snd (zip tracks amps)))"
    by (simp add: filter_map comp_def)
  also have "map snd (zip tracks amps) = amps"
    using len by simp
  also have "length (filter (\<lambda>a. a * sf * ma > 1 / 2) amps)
               = length (filter (\<lambda>h. 1 / 2 < h) (map (\<lambda>a. a * sf * ma) amps))"
    by (simp add: filter_map comp_def)
  finally have cnt: "length (filter (\<lambda>z. snd z * sf * ma > 1 / 2) (zip tracks amps))
               = length (filter (\<lambda>h. 1 / 2 < h) (map (\<lambda>a. a * sf * ma) amps))" .
  have seg: "segmentHeights dims tracks ct wd mode gm hp sl x = map (\<lambda>a. a * sf * ma) amps"
    by (simp add: segmentHeights_def Let_def amps_def sf_def ma_def)
  have hpp: "heightPercentToPixels dims hp = ma"
    by (simp add: heightPercentToPixels_def ma_def)
  show ?thesis
    unfolding additiveColumn_def Let_def ca sc seg hpp
    by (simp only: length_append stackUpper_count stackLower_count cnt mult_2)
qed

lemma timeIndicator_label:
  "\<exists>label. renderTimeIndicator dims ct wd = FillText label
      \<and> label_x label = real (width dims) - 10 \<and> label_y label = real (height dims) - 10"
  by (simp add: renderTimeIndicator_def Let_def)

lemma reveal_lines:
  assumes "tracks \<noteq> []" and "\<forall>t \<in> set tracks. channelData (buffer t) \<noteq> []"
    and "layout = Overlay \<or> layout = Stacked"
  shows "\<exists>gm strokes label.
           render canvas dims tracks ct dur layout mode hp sl wd
             = Inr (FillRect ''#000000'' 0 0 (real (fst canvas)) (real (snd canvas))
                    # map StrokePath strokes @ [FillText label])
         \<and> label_x label = real (width dims) - 10 \<and> label_y label = real (height dims) - 10
         \<and> (mode = Normalized \<longrightarrow> calculateGlobalMaxAmplitude dims tracks ct wd = Inr gm)
         \<and> (mode = Individual \<longrightarrow> gm = 1)
         \<and> (\<forall>st \<in> set strokes. columnsOf st \<subseteq> set (revealedColumns dims ct wd))
         \<and> length strokes = length tracks
         \<and> (\<forall>k<length tracks.
               map line_x (path (strokes ! k)) = revealedColumns dims ct wd
             \<and> (\<forall>l \<in> set (path (strokes ! k)).
                   y_start l = bandCenter dims layout (length tracks) k
                     - normalizeAmplitude mode gm
                         (waveformOf (tracks ! k) ct wd (width dims) sl ! line_x l)
                       * bandAmplitude dims layout hp
                 \<and> y_end l = bandCenter dims layout (length tracks) k
                     + normalizeAmplitude mode gm
                         (waveformOf (tracks ! k) ct wd (width dims) sl ! line_x l)
                       * bandAmplitude dims layout hp))"
proof -
  from globalMax_total [OF assms(2), of mode dims ct wd] assms(1) obtain gm where
    g0: "(if mode = Normalized \<and> length tracks > 0
          then calculateGlobalMaxAmplitude dims tracks ct wd else Inr 1.0) = Inr gm"
    and g1: "mode = Normalized \<longrightarrow> calculateGlobalMaxAmplitude dims tracks ct wd = Inr gm"
    and g2: "mode = Individual \<longrightarrow> gm = 1"
    by blast
  from timeIndicator_label [of dims ct wd] obtain label where
    l0: "renderTimeIndicator dims ct wd = FillText label"
    and l1: "label_x label = real (width dims) - 10"
    and l2: "label_y label = real (height dims) - 10"
    by blast
  define stroke where "stroke = (\<lambda>k. \<lparr>strokeStyle = (color (tracks ! k), opacity (tracks ! k)),
                                  lineWidth = 2,
                                  path = map (trackLine (waveformOf (tracks ! k) ct wd (width dims) sl)
                                                (bandCenter dims layout (length tracks) k)
                                                (bandAmplitude dims layout hp) mode gm)
                                           (revealedColumns dims ct wd)\<rparr>)"
  define strokes where "strokes = map stroke [0..<length tracks]"
  have r: "render canvas dims tracks ct dur layout mode hp sl wd
             = Inr (FillRect ''#000000'' 0 0 (real (fst canvas)) (real (snd canvas))
                    # map StrokePath strokes @ [FillText label])"
    unfolding strokes_def stroke_def l0 [symmetric]
    by (rule render_lines [OF assms g0])
  have lx: "map line_x (map (trackLine wv cy ma mode gm) cols) = cols" for wv cy ma cols
    by (induction cols) (simp_all add: trackLine_def Let_def)
  have len: "length strokes = length tracks"
    by (simp add: strokes_def)
  have nth: "strokes ! k = stroke k" if "k < length tracks" for k
    using that by (simp add: strokes_def)
  have cols: "map line_x (path (strokes ! k)) = revealedColumns dims ct wd" if "k < length tracks" for k
    by (simp add: nth [OF that] stroke_def lx del: map_map)
  have ys: "y_start l = bandCenter dims layout (length tracks) k
                     - normalizeAmplitude mode gm
                         (waveformOf (tracks ! k) ct wd (width dims) sl ! line_x l)
                       * bandAmplitude dims layout hp
          \<and> y_end l = bandCenter dims layout (length tracks) k
                     + normalizeAmplitude mode gm
                         (waveformOf (tracks ! k) ct wd (width dims) sl ! line_x l)
                       * bandAmplitude dims layout hp"
    if "k < length tracks" "l \<in> set (path (strokes ! k))" for k l
    using that(2) by (auto simp: nth [OF that(1)] stroke_def trackLine_def Let_def)
  have sub: "columnsOf st \<subseteq> set (revealedColumns dims ct wd)" if "st \<in> set strokes" for st
  proof -
    from that obtain k where k: "k < length tracks" and st: "st = strokes ! k"
      by (auto simp: in_set_conv_nth len)
    have "columnsOf st = set (map line_x (path (strokes ! k)))"
      by (simp add: columnsOf_def st)
    then show ?thesis
      by (simp only: cols [OF k])
  qed
  from r l1 l2 g1 g2 sub len cols ys show ?thesis
    by blast
qed

lemma reveal_additive:
  assumes "tracks \<noteq> []" and "\<forall>t \<in> set tracks. channelData (buffer t) \<noteq> []"
  shows "\<exists>gm strokes label.
           render canvas dims tracks ct dur OverlayAdditive mode hp sl wd
             = Inr (FillRect ''#000000'' 0 0 (real (fst canvas)) (real (snd canvas))
                    # map StrokePath strokes @ [FillText label])
         \<and> label_x label = real (width dims) - 10 \<and> label_y label = real (height dims) - 10
         \<and> (mode = Normalized \<longrightarrow> calculateGlobalMaxAmplitude dims tracks ct wd = Inr gm)
         \<and> (mode = Individual \<longrightarrow> gm = 1)
         \<and> (\<forall>st \<in> set strokes. columnsOf st \<subseteq> set (revealedColumns dims ct wd))
         \<and> (\<forall>st \<in> set strokes. \<exists>l. path st = [l] \<and> 1 / 2 < \<bar>y_end l - y_start l\<bar>)
         \<and> (\<forall>x \<in> set (revealedColumns dims ct wd).
               length (filter (\<lambda>st. columnsOf st = {x}) strokes)
                 = 2 * length (filter (\<lambda>h. 1 / 2 < h)
                                 (segmentHeights dims tracks ct wd mode gm hp sl x)))"
proof -
  from globalMax_total [OF assms(2), of mode dims ct wd] assms(1) obtain gm where
    g0: "(if mode = Normalized \<and> length tracks > 0
          then calculateGlobalMaxAmplitude dims tracks ct wd else Inr 1.0) = Inr gm"
    and g1: "mode = Normalized \<longrightarrow> calculateGlobalMaxAmplitude dims tracks ct wd = Inr gm"
    and g2: "mode = Individual \<longrightarrow> gm = 1"
    by blast
  from timeIndicator_label [of dims ct wd] obtain label where
    l0: "renderTimeIndicator dims ct wd = FillText label"
    and l1: "label_x label = real (width dims) - 10"
    and l2: "label_y label = real (height dims) - 10"
    by blast
  define F where "F = additiveColumn tracks (map (\<lambda>t. waveformOf t ct wd (width dims) sl) tracks)
                        (centerY dims) (heightPercentToPixels dims hp) mode gm"
  define strokes where "strokes = concat (map F (revealedColumns dims ct wd))"
  have r: "render canvas dims tracks ct dur OverlayAdditive mode hp sl wd
             = Inr (FillRect ''#000000'' 0 0 (real (fst canvas)) (real (snd canvas))
                    # map StrokePath strokes @ [FillText label])"
    unfolding strokes_def F_def l0 [symmetric]
    by (rule render_additive [OF assms g0])
  have col: "columnsOf s = {c}" if "s \<in> set (F c)" for c s
    using that unfolding F_def by (rule additiveColumn_columns)
  have sub: "columnsOf st \<subseteq> set (revealedColumns dims ct wd)" if "st \<in> set strokes" for st
  proof -
    from that obtain c where c: "c \<in> set (revealedColumns dims ct wd)" and st: "st \<in> set (F c)"
      by (auto simp: strokes_def)
    from col [OF st] c show ?thesis by simp
  qed
  have single: "\<exists>l. path st = [l] \<and> 1 / 2 < \<bar>y_end l - y_start l\<bar>" if "st \<in> set strokes" for st
  proof -
    from that obtain c where "st \<in> set (F c)"
      by (auto simp: strokes_def)
    from additiveColumn_single [OF this [unfolded F_def]] show ?thesis by blast
  qed
  have cnt: "length (filter (\<lambda>st. columnsOf st = {x}) strokes)
                 = 2 * length (filter (\<lambda>h. 1 / 2 < h)
                                 (segmentHeights dims tracks ct wd mode gm hp sl x))"
    if "x \<in> set (revealedColumns dims ct wd)" for x
  proof -
    have "filter (\<lambda>st. columnsOf st = {x}) strokes = F x"
      unfolding strokes_def
      by (rule filter_concat_column [OF distinct_revealedColumns that]) (rule col)
    then show ?thesis
      by (simp only: F_def additiveColumn_count [OF revealed_less [OF that]])
  qed
  from r l1 l2 g1 g2 sub single cnt show ?thesis
    by blast
qed

lemma spectrum_total:
  assumes "channelData (buffer tr) \<noteq> []"
  shows "getFrequencySpectrumForTimeWindow tr ct wd n = Inr (spectrumOf tr ct wd n)"
  using assms by (simp add: spectrum_unfold channel0_cases spectrumOf_def channel0_def)

lemma length_spectrumOf [simp]: "length (spectrumOf tr ct wd n) = n div 2"
  by (simp add: spectrumOf_def)

lemma fold_update_set:
  "set (fold (\<lambda>i a. a[i := f i]) ks a) \<subseteq> range f \<union> set a"
proof (induction ks arbitrary: a)
  case Nil
  then show ?case by simp
next
  case (Cons k ks)
  have "set (fold (\<lambda>i a. a[i := f i]) ks (a[k := f k])) \<subseteq> range f \<union> set (a[k := f k])"
    by (rule Cons.IH)
  also have "\<dots> \<subseteq> range f \<union> insert (f k) (set a)"
    using set_update_subset_insert [of a k "f k"] by blast
  also have "\<dots> \<subseteq> range f \<union> set a"
    by auto
  finally show ?case by simp
qed

lemma magnitudeAt_nonneg: "magnitudeAt spectrum i = NaN \<or> (\<exists>r. magnitudeAt spectrum i = Num r \<and> 0 \<le> r)"
proof -
  have "jsqrt v = NaN \<or> (\<exists>r. jsqrt v = Num r \<and> 0 \<le> r)" for v
    by (cases v) auto
  then show ?thesis
    by (simp add: magnitudeAt_def Let_def)
qed

lemma extractSpectrum_entries:
  assumes "v \<in> set (extractSpectrum chan s e n)"
  shows "v = NaN \<or> (\<exists>r. v = Num r \<and> 0 \<le> r)"
proof (cases "e - s < int n")
  case True
  with assms show ?thesis
    by (simp add: extractSpectrum_insufficient)
next
  case False
  then obtain spectrum where
    "extractSpectrum chan s e n
       = fillLoop (halfCeil n) (magnitudeAt spectrum) (replicate (n div 2) (Num 0))"
    by (simp add: extractSpectrum_def Let_def)
  with assms have "v \<in> range (magnitudeAt spectrum) \<union> set (replicate (n div 2) (Num 0))"
    using fold_update_set [of "magnitudeAt spectrum" "[0..<halfCeil n]" "replicate (n div 2) (Num 0)"]
    by (auto simp: fillLoop_def)
  then show ?thesis
    using magnitudeAt_nonneg [of spectrum] by auto
qed

lemma spectrum_bar_argument:
  "jadd (Num 1) (jmul (f32get (extractSpectrum chan s e n) i) (Num 100)) = NaN
   \<or> (\<exists>a. jadd (Num 1) (jmul (f32get (extractSpectrum chan s e n) i) (Num 100)) = Num a \<and> 1 \<le> a)"
proof (cases "i < length (extractSpectrum chan s e n)")
  case True
  then have "f32get (extractSpectrum chan s e n) i \<in> set (extractSpectrum chan s e n)"
    by (simp add: f32get_def)
  from extractSpectrum_entries [OF this] show ?thesis
    by auto
next
  case False
  then show ?thesis
    by (simp add: f32get_def)
qed

lemma renderTrackSpectrum_bars:
  assumes "channelData (buffer tr) \<noteq> []"
  shows "renderTrackSpectrum dims tr ct baseY hp wd
           = Inr \<lparr>barStyle = (color tr, opacity tr), barLineWidth = 2,
                  bars = map (spectrumBar (spectrumOf tr ct wd 2048) (real (width dims) / 1024)
                                (heightPercentToPixels dims hp) baseY) [0..<1024]\<rparr>"
  by (simp add: renderTrackSpectrum_def spectrum_total [OF assms] Let_def)

lemma render_bars:
  assumes "tracks \<noteq> []" and "\<forall>t \<in> set tracks. channelData (buffer t) \<noteq> []"
    and "layout = SpectrumOverlay \<or> layout = SpectrumStacked"
    and "(if mode = Normalized \<and> length tracks > 0
          then calculateGlobalMaxAmplitude dims tracks ct wd else Inr 1.0) = Inr gm"
  shows "render canvas dims tracks ct dur layout mode hp sl wd
           = Inr (FillRect ''#000000'' 0 0 (real (fst canvas)) (real (snd canvas))
                  # map StrokeBars
                      (map (\<lambda>k. \<lparr>barStyle = (color (tracks ! k), opacity (tracks ! k)),
                                  barLineWidth = 2,
                                  bars = map (spectrumBar (spectrumOf (tracks ! k) ct wd 2048)
                                                (real (width dims) / 1024)
                                                (heightPercentToPixels dims hp)
                                                (if layout = SpectrumStacked
                                                 then (real k + 1)
                                                        * (real (height dims) / real (length tracks))
                                                 else real (height dims)))
                                           [0..<1024]\<rparr>)
                         [0..<length tracks])
                  @ [renderTimeIndicator dims ct wd])"
proof -
  have ne: "length tracks \<noteq> 0" using assms(1) by simp
  have ch: "channelData (buffer (tracks ! k)) \<noteq> []" if "k < length tracks" for k
    using assms(2) that by simp
  show ?thesis
  proof (cases "layout = SpectrumStacked")
    case True
    have "renderTracksSpectrumStacked dims tracks ct hp wd
            = Inr (map (\<lambda>k. \<lparr>barStyle = (color (tracks ! k), opacity (tracks ! k)),
                                  barLineWidth = 2,
                                  bars = map (spectrumBar (spectrumOf (tracks ! k) ct wd 2048)
                                                (real (width dims) / 1024)
                                                (heightPercentToPixels dims hp)
                                                (if layout = SpectrumStacked
                                                 then (real k + 1)
                                                        * (real (height dims) / real (length tracks))
                                                 else real (height dims)))
                                           [0..<1024]\<rparr>)
                         [0..<length tracks])"
      unfolding renderTracksSpectrumStacked_def Let_def
      by (rule forEachTrack_Inr) (simp add: renderTrackSpectrum_bars [OF ch] True)
    then show ?thesis
      using ne True by (simp only: render_def Let_def assms(4)) simp
  next
    case False
    with assms(3) have ov: "layout = SpectrumOverlay" by simp
    have "renderTracksSpectrumOverlay dims tracks ct hp wd
            = Inr (map (\<lambda>k. \<lparr>barStyle = (color (tracks ! k), opacity (tracks ! k)),
                                  barLineWidth = 2,
                                  bars = map (spectrumBar (spectrumOf (tracks ! k) ct wd 2048)
                                                (real (width dims) / 1024)
                                                (heightPercentToPixels dims hp)
                                                (if layout = SpectrumStacked
                                                 then (real k + 1)
                                                        * (real (height dims) / real (length tracks))
                                                 else real (height dims)))
                                           [0..<1024]\<rparr>)
                         [0..<length tracks])"
      unfolding renderTracksSpectrumOverlay_def Let_def
      by (rule forEachTrack_Inr) (simp add: renderTrackSpectrum_bars [OF ch] ov)
    then show ?thesis
      using ne ov by (simp only: render_def Let_def assms(4)) simp
  qed
qed

lemma reveal_bars:
  assumes "tracks \<noteq> []" and "\<forall>t \<in> set tracks. channelData (buffer t) \<noteq> []"
    and "layout = SpectrumOverlay \<or> layout = SpectrumStacked"
  shows "\<exists>gm bs label.
           render canvas dims tracks ct dur layout mode hp sl wd
             = Inr (FillRect ''#000000'' 0 0 (real (fst canvas)) (real (snd canvas))
                    # map StrokeBars bs @ [FillText label])
         \<and> label_x label = real (width dims) - 10 \<and> label_y label = real (height dims) - 10
         \<and> (mode = Normalized \<longrightarrow> calculateGlobalMaxAmplitude dims tracks ct wd = Inr gm)
         \<and> (mode = Individual \<longrightarrow> gm = 1)
         \<and> length bs = length tracks
         \<and> (\<forall>k<length tracks.
               map bar_x (bars (bs ! k)) = map (\<lambda>i. real i * (real (width dims) / 1024)) [0..<1024])"
proof -
  from globalMax_total [OF assms(2), of mode dims ct wd] assms(1) obtain gm where
    g0: "(if mode = Normalized \<and> length tracks > 0
          then calculateGlobalMaxAmplitude dims tracks ct wd else Inr 1.0) = Inr gm"
    and g1: "mode = Normalized \<longrightarrow> calculateGlobalMaxAmplitude dims tracks ct wd = Inr gm"
    and g2: "mode = Individual \<longrightarrow> gm = 1"
    by blast
  from timeIndicator_label [of dims ct wd] obtain label where
    l0: "renderTimeIndicator dims ct wd = FillText label"
    and l1: "label_x label = real (width dims) - 10"
    and l2: "label_y label = real (height dims) - 10"
    by blast
  define bar where "bar = (\<lambda>k. \<lparr>barStyle = (color (tracks ! k), opacity (tracks ! k)),
                                  barLineWidth = 2,
                                  bars = map (spectrumBar (spectrumOf (tracks ! k) ct wd 2048)
                                                (real (width dims) / 1024)
                                                (heightPercentToPixels dims hp)
                                                (if layout = SpectrumStacked
                                                 then (real k + 1)
                                                        * (real (height dims) / real (length tracks))
                                                 else real (height dims)))
                                           [0..<1024]\<rparr>)"
  define bs where "bs = map bar [0..<length tracks]"
  have r: "render canvas dims tracks ct dur layout mode hp sl wd
             = Inr (FillRect ''#000000'' 0 0 (real (fst canvas)) (real (snd canvas))
                    # map StrokeBars bs @ [FillText label])"
    unfolding bs_def bar_def l0 [symmetric]
    by (rule render_bars [OF assms g0])
  have bx: "map bar_x (map (spectrumBar sp bw mh by) is) = map (\<lambda>i. real i * bw) is"
    for sp bw mh "by" "is"
    by (induction "is") (simp_all add: spectrumBar_def Let_def)
  have len: "length bs = length tracks"
    by (simp add: bs_def)
  have cols: "map bar_x (bars (bs ! k)) = map (\<lambda>i. real i * (real (width dims) / 1024)) [0..<1024]"
    if "k < length tracks" for k
    using that by (simp add: bs_def bar_def bx del: map_map upt.simps)
  from r l1 l2 g1 g2 len cols show ?thesis
    by blast
qed

lemma barColumns_render:
  assumes "tracks \<noteq> []" and "\<forall>t \<in> set tracks. channelData (buffer t) \<noteq> []"
    and "layout = SpectrumOverlay \<or> layout = SpectrumStacked"
  shows "barColumns (commandsOf (render canvas dims tracks ct dur layout mode hp sl wd))
           = concat (map (\<lambda>k. map (\<lambda>i. real i * (real (width dims) / 1024)) [0..<1024])
                       [0..<length tracks])"
proof -
  from globalMax_total [OF assms(2), of mode dims ct wd] obtain gm where
    g0: "(if mode = Normalized \<and> length tracks > 0
          then calculateGlobalMaxAmplitude dims tracks ct wd else Inr 1.0) = Inr gm"
    by blast
  have bx: "map bar_x (map (spectrumBar sp bw mh by) is) = map (\<lambda>i. real i * bw) is"
    for sp bw mh "by" "is"
    by (induction "is") (simp_all add: spectrumBar_def Let_def)
  have cc: "barColumns (c # map StrokeBars (map g ks) @ [renderTimeIndicator dims ct wd])
              = concat (map (\<lambda>k. map bar_x (bars (g k))) ks)"
    if "c = FillRect s a b d e" for c s a b d e g and ks :: "nat list"
    using that by (induction ks) (simp_all add: barColumns_def renderTimeIndicator_def Let_def)
  show ?thesis
    unfolding render_bars [OF assms g0] commandsOf_def sum.case
    by (subst cc [OF refl]) (simp only: BarStroke.simps bx)
qed

lemma timeIndicator_example:
  "renderTimeIndicator (RenderContext 100 50) (1 / 2) 1
     = FillText \<lparr>fillStyle = ''#FFFFFF'', font = ''14px monospace'', textAlign = ''right'',
                  textBaseline = ''bottom'', label_text = ''00:00'', label_x = 90, label_y = 40\<rparr>"
proof -
  have m: "\<lfloor>ddiv (1 / 2) 60\<rfloor> = 0"
    by (simp add: double_ops fl_eval)
  have s: "\<lfloor>jsRemainder (1 / 2) 60\<rfloor> = 0"
    by (simp add: jsRemainder_def)
  have d: "padStart (toString 0) 2 CHR ''0'' = ''00''"
    by (simp add: padStart_def toString_def digits.simps)
  show ?thesis
    by (simp add: renderTimeIndicator_def Let_def m s d RenderContext_def)
qed

text \<open>
  C8, amended. For every render of a non-empty list of tracks that have a first channel,
  the frame is the background fill, the strokes of the layout and, last, the time label,
  anchored at \<open>(width - 10, height - 10)\<close>. The revealed columns are those left of
  \<open>maxX\<close>, which is \<open>floor (currentTime / windowDuration * width)\<close> (quotient and product
  in binary64) while \<open>currentTime < windowDuration\<close> and the width afterwards, when every
  column is revealed. Every waveform stroke lies in revealed columns. In the overlay and
  stacked layouts there is one stroke per track, with one line in each revealed column
  and in no other, from the center of the band minus the (normalized) amplitude times the
  band amplitude to the center plus as much. In the overlay-additive layout every stroke
  is one segment, longer than half a pixel, and each revealed column carries two strokes
  (one above, one below the center) for each track whose segment there is longer than half
  a pixel. The spectrum layouts issue no waveform stroke: every track has 1024 bars, at
  \<open>x = i * width / 1024\<close>, whatever the time.
\<close>

theorem progressive_reveal:
  assumes "tracks \<noteq> []" and "\<forall>t \<in> set tracks. channelData (buffer t) \<noteq> []"
  shows "\<exists>gm strokes bs label.
           render canvas dims tracks ct dur layout mode hp sl wd
             = Inr (FillRect ''#000000'' 0 0 (real (fst canvas)) (real (snd canvas))
                    # map StrokePath strokes @ map StrokeBars bs @ [FillText label])
         \<and> label_x label = real (width dims) - 10 \<and> label_y label = real (height dims) - 10
         \<and> (mode = Normalized \<longrightarrow> calculateGlobalMaxAmplitude dims tracks ct wd = Inr gm)
         \<and> (mode = Individual \<longrightarrow> gm = 1)
         \<and> revealedColumns dims ct wd = [0..<nat (min (revealMaxX dims ct wd) (int (width dims)))]
         \<and> (\<not> ct < wd \<longrightarrow> revealedColumns dims ct wd = [0..<width dims])
         \<and> (\<forall>st \<in> set strokes. columnsOf st \<subseteq> set (revealedColumns dims ct wd))
         \<and> (layout = Overlay \<or> layout = Stacked \<longrightarrow>
               bs = [] \<and> length strokes = length tracks
             \<and> (\<forall>k<length tracks.
                   map line_x (path (strokes ! k)) = revealedColumns dims ct wd
                 \<and> (\<forall>l \<in> set (path (strokes ! k)).
                       y_start l = bandCenter dims layout (length tracks) k
                         - normalizeAmplitude mode gm
                             (waveformOf (tracks ! k) ct wd (width dims) sl ! line_x l)
                           * bandAmplitude dims layout hp
                     \<and> y_end l = bandCenter dims layout (length tracks) k
                         + normalizeAmplitude mode gm
                             (waveformOf (tracks ! k) ct wd (width dims) sl ! line_x l)
                           * bandAmplitude dims layout hp)))
         \<and> (layout = OverlayAdditive \<longrightarrow>
               bs = []
             \<and> (\<forall>st \<in> set strokes. \<exists>l. path st = [l] \<and> 1 / 2 < \<bar>y_end l - y_start l\<bar>)
             \<and> (\<forall>x \<in> set (revealedColumns dims ct wd).
                   length (filter (\<lambda>st. columnsOf st = {x}) strokes)
                     = 2 * length (filter (\<lambda>h. 1 / 2 < h)
                                     (segmentHeights dims tracks ct wd mode gm hp sl x))))
         \<and> (layout = SpectrumOverlay \<or> layout = SpectrumStacked \<longrightarrow>
               strokes = [] \<and> length bs = length tracks
             \<and> (\<forall>k<length tracks.
                   map bar_x (bars (bs ! k))
                     = map (\<lambda>i. real i * (real (width dims) / 1024)) [0..<1024]))"
proof -
  have full: "\<not> ct < wd \<longrightarrow> revealedColumns dims ct wd = [0..<width dims]"
    by (simp add: revealedColumns_def)
  note upt = revealed_upt [of dims ct wd, symmetric]
  consider (lines) "layout = Overlay \<or> layout = Stacked" | (additive) "layout = OverlayAdditive"
    | (spectrum) "layout = SpectrumOverlay \<or> layout = SpectrumStacked"
    by (cases layout) auto
  then show ?thesis
  proof cases
    case lines
    then have no: "layout \<noteq> OverlayAdditive" "layout \<noteq> SpectrumOverlay" "layout \<noteq> SpectrumStacked"
      by auto
    from reveal_lines [OF assms lines, of canvas dims ct dur mode hp sl wd]
    obtain gm strokes label where
      r: "render canvas dims tracks ct dur layout mode hp sl wd
             = Inr (FillRect ''#000000'' 0 0 (real (fst canvas)) (real (snd canvas))
                    # map StrokePath strokes @ [FillText label])"
      and l: "label_x label = real (width dims) - 10" "label_y label = real (height dims) - 10"
      and g: "mode = Normalized \<longrightarrow> calculateGlobalMaxAmplitude dims tracks ct wd = Inr gm"
        "mode = Individual \<longrightarrow> gm = 1"
      and sub: "\<forall>st \<in> set strokes. columnsOf st \<subseteq> set (revealedColumns dims ct wd)"
      and len: "length strokes = length tracks"
      and each: "\<forall>k<length tracks.
               map line_x (path (strokes ! k)) = revealedColumns dims ct wd
             \<and> (\<forall>l \<in> set (path (strokes ! k)).
                   y_start l = bandCenter dims layout (length tracks) k
                     - normalizeAmplitude mode gm
                         (waveformOf (tracks ! k) ct wd (width dims) sl ! line_x l)
                       * bandAmplitude dims layout hp
                 \<and> y_end l = bandCenter dims layout (length tracks) k
                     + normalizeAmplitude mode gm
                         (waveformOf (tracks ! k) ct wd (width dims) sl ! line_x l)
                       * bandAmplitude dims layout hp)"
      by (elim exE conjE) (rule that; assumption)
    have r': "render canvas dims tracks ct dur layout mode hp sl wd
             = Inr (FillRect ''#000000'' 0 0 (real (fst canvas)) (real (snd canvas))
                    # map StrokePath strokes @ map StrokeBars [] @ [FillText label])"
      by (simp add: r)
    show ?thesis
      apply (rule exI [of _ gm], rule exI [of _ strokes], rule exI [of _ "[]"], rule exI [of _ label])
      apply (intro conjI impI)
      using r' l g upt full sub len each no lines by (simp_all only: simp_thms)
  next
    case additive
    then have no: "\<not> (layout = Overlay \<or> layout = Stacked)"
      "\<not> (layout = SpectrumOverlay \<or> layout = SpectrumStacked)"
      by auto
    from reveal_additive [OF assms, of canvas dims ct dur mode hp sl wd]
    obtain gm strokes label where
      r: "render canvas dims tracks ct dur OverlayAdditive mode hp sl wd
             = Inr (FillRect ''#000000'' 0 0 (real (fst canvas)) (real (snd canvas))
                    # map StrokePath strokes @ [FillText label])"
      and l: "label_x label = real (width dims) - 10" "label_y label = real (height dims) - 10"
      and g: "mode = Normalized \<longrightarrow> calculateGlobalMaxAmplitude dims tracks ct wd = Inr gm"
        "mode = Individual \<longrightarrow> gm = 1"
      and sub: "\<forall>st \<in> set strokes. columnsOf st \<subseteq> set (revealedColumns dims ct wd)"
      and single: "\<forall>st \<in> set strokes. \<exists>l. path st = [l] \<and> 1 / 2 < \<bar>y_end l - y_start l\<bar>"
      and count: "\<forall>x \<in> set (revealedColumns dims ct wd).
               length (filter (\<lambda>st. columnsOf st = {x}) strokes)
                 = 2 * length (filter (\<lambda>h. 1 / 2 < h)
                                 (segmentHeights dims tracks ct wd mode gm hp sl x))"
      by (elim exE conjE) (rule that; assumption)
    have r': "render canvas dims tracks ct dur layout mode hp sl wd
             = Inr (FillRect ''#000000'' 0 0 (real (fst canvas)) (real (snd canvas))
                    # map StrokePath strokes @ map StrokeBars [] @ [FillText label])"
      by (simp add: r additive)
    show ?thesis
      apply (rule exI [of _ gm], rule exI [of _ strokes], rule exI [of _ "[]"], rule exI [of _ label])
      apply (intro conjI impI)
      using r' l g upt full sub single count no additive by (simp_all only: simp_thms)
  next
    case spectrum
    then have no: "\<not> (layout = Overlay \<or> layout = Stacked)" "layout \<noteq> OverlayAdditive"
      by auto
    from reveal_bars [OF assms spectrum, of canvas dims ct dur mode hp sl wd]
    obtain gm bs label where
      r: "render canvas dims tracks ct dur layout mode hp sl wd
             = Inr (FillRect ''#000000'' 0 0 (real (fst canvas)) (real (snd canvas))
                    # map StrokeBars bs @ [FillText label])"
      and l: "label_x label = real (width dims) - 10" "label_y label = real (height dims) - 10"
      and g: "mode = Normalized \<longrightarrow> calculateGlobalMaxAmplitude dims tracks ct wd = Inr gm"
        "mode = Individual \<longrightarrow> gm = 1"
      and len: "length bs = length tracks"
      and each: "\<forall>k<length tracks.
               map bar_x (bars (bs ! k)) = map (\<lambda>i. real i * (real (width dims) / 1024)) [0..<1024]"
      by (elim exE conjE) (rule that; assumption)
    have r': "render canvas dims tracks ct dur layout mode hp sl wd
             = Inr (FillRect ''#000000'' 0 0 (real (fst canvas)) (real (snd canvas))
                    # map StrokePath [] @ map StrokeBars bs @ [FillText label])"
      by (simp add: r)
    have sub: "\<forall>st \<in> set []. columnsOf st \<subseteq> set (revealedColumns dims ct wd)"
      by simp
    show ?thesis
      apply (rule exI [of _ gm], rule exI [of _ "[]"], rule exI [of _ bs], rule exI [of _ label])
      apply (intro conjI impI)
      using r' l g upt full sub len each no spectrum by (simp_all only: simp_thms)
  qed
qed

theorem progressive_reveal_witness:
  "[mockTrack [1 / 2, - 1] 2 1] \<noteq> []
   \<and> channelData (buffer (mockTrack [1 / 2, - 1] 2 1)) \<noteq> []
   \<and> revealMaxX (RenderContext 100 50) (1 / 2) 1 = 50
   \<and> revealMaxX forExport (4803839602528529 / 144115188075855872) 1 = 64
   \<and> (\<exists>st label.
         render (100, 50) (RenderContext 100 50) [mockTrack [1 / 2, - 1] 2 1] (1 / 2) 1
           Overlay Individual 50 0 1
           = Inr [FillRect ''#000000'' 0 0 100 50, StrokePath st, FillText label]
       \<and> map line_x (path st) = [0..<50]
       \<and> label_x label = 90 \<and> label_y label = 40)
   \<and> (\<exists>st label.
         render (100, 50) (RenderContext 100 50) [mockTrack [1 / 2, - 1] 2 1] 1 1
           Overlay Individual 50 0 1
           = Inr [FillRect ''#000000'' 0 0 100 50, StrokePath st, FillText label]
       \<and> map line_x (path st) = [0..<100])
   \<and> (\<exists>b label.
         render (100, 50) (RenderContext 100 50) [mockTrack [1 / 2, - 1] 2 1] (1 / 2) 1
           SpectrumOverlay Individual 50 0 1
           = Inr [FillRect ''#000000'' 0 0 100 50, StrokeBars b, FillText label]
       \<and> map bar_x (bars b) = map (\<lambda>i. real i * (100 / 1024)) [0..<1024])"
proof -
  let ?T = "mockTrack [1 / 2, - 1] 2 1"
  let ?D = "RenderContext 100 50"
  have ne: "[?T] \<noteq> []"
    by simp
  have h1: "channelData (buffer ?T) \<noteq> []"
    by (simp add: mockTrack_def)
  have h2: "\<forall>t \<in> set [?T]. channelData (buffer t) \<noteq> []"
    using h1 by simp
  have w: "width ?D = 100" "height ?D = 50"
    by (simp_all add: RenderContext_def)
  have m: "revealMaxX ?D (1 / 2) 1 = 50"
    by (simp add: revealMaxX_def w double_ops fl_eval)
  have m1: "revealMaxX ?D 1 1 = 100"
    by (simp add: revealMaxX_def w)
  have m2: "revealMaxX forExport (4803839602528529 / 144115188075855872) 1 = 64"
    by (simp add: revealMaxX_def forExport_def RenderContext_def double_ops fl_eval)
  have single: "xs = [xs ! 0]" if "length xs = length [?T]" for xs :: "'a list"
    using that by (cases xs) simp_all
  have A: "\<exists>st label.
         render (100, 50) ?D [?T] (1 / 2) 1 Overlay Individual 50 0 1
           = Inr [FillRect ''#000000'' 0 0 100 50, StrokePath st, FillText label]
       \<and> map line_x (path st) = [0..<50]
       \<and> label_x label = 90 \<and> label_y label = 40"
  proof -
    from progressive_reveal [OF ne h2, of "(100, 50)" ?D "1 / 2" 1 Overlay Individual 50 0 1]
    obtain gm strokes bs label where
      r: "render (100, 50) ?D [?T] (1 / 2) 1 Overlay Individual 50 0 1
            = Inr (FillRect ''#000000'' 0 0 (real (fst (100 :: nat, 50 :: nat)))
                     (real (snd (100 :: nat, 50 :: nat)))
                   # map StrokePath strokes @ map StrokeBars bs @ [FillText label])"
      and l: "label_x label = real (width ?D) - 10" "label_y label = real (height ?D) - 10"
      and rc: "revealedColumns ?D (1 / 2) 1
                 = [0..<nat (min (revealMaxX ?D (1 / 2) 1) (int (width ?D)))]"
      and lines: "Overlay = Overlay \<or> Overlay = Stacked \<longrightarrow>
               bs = [] \<and> length strokes = length [?T]
             \<and> (\<forall>k<length [?T].
                   map line_x (path (strokes ! k)) = revealedColumns ?D (1 / 2) 1
                 \<and> (\<forall>l \<in> set (path (strokes ! k)).
                       y_start l = bandCenter ?D Overlay (length [?T]) k
                         - normalizeAmplitude Individual gm
                             (waveformOf ([?T] ! k) (1 / 2) 1 (width ?D) 0 ! line_x l)
                           * bandAmplitude ?D Overlay 50
                     \<and> y_end l = bandCenter ?D Overlay (length [?T]) k
                         + normalizeAmplitude Individual gm
                             (waveformOf ([?T] ! k) (1 / 2) 1 (width ?D) 0 ! line_x l)
                           * bandAmplitude ?D Overlay 50))"
      by (elim exE conjE) (rule that; assumption)
    from lines have bs: "bs = []" and len: "length strokes = length [?T]"
      and cols: "map line_x (path (strokes ! 0)) = revealedColumns ?D (1 / 2) 1"
      by simp_all
    have "render (100, 50) ?D [?T] (1 / 2) 1 Overlay Individual 50 0 1
            = Inr [FillRect ''#000000'' 0 0 100 50, StrokePath (strokes ! 0), FillText label]"
      unfolding r bs by (subst single [OF len]) simp
    moreover have "map line_x (path (strokes ! 0)) = [0..<50]"
      unfolding cols rc m w by simp
    moreover have "label_x label = 90" "label_y label = 40"
      using l by (simp_all add: w)
    ultimately show ?thesis
      by blast
  qed
  have B: "\<exists>st label.
         render (100, 50) ?D [?T] 1 1 Overlay Individual 50 0 1
           = Inr [FillRect ''#000000'' 0 0 100 50, StrokePath st, FillText label]
       \<and> map line_x (path st) = [0..<100]"
  proof -
    from progressive_reveal [OF ne h2, of "(100, 50)" ?D 1 1 Overlay Individual 50 0 1]
    obtain gm strokes bs label where
      r: "render (100, 50) ?D [?T] 1 1 Overlay Individual 50 0 1
            = Inr (FillRect ''#000000'' 0 0 (real (fst (100 :: nat, 50 :: nat)))
                     (real (snd (100 :: nat, 50 :: nat)))
                   # map StrokePath strokes @ map StrokeBars bs @ [FillText label])"
      and full: "\<not> (1 :: real) < 1 \<longrightarrow> revealedColumns ?D 1 1 = [0..<width ?D]"
      and lines: "Overlay = Overlay \<or> Overlay = Stacked \<longrightarrow>
               bs = [] \<and> length strokes = length [?T]
             \<and> (\<forall>k<length [?T].
                   map line_x (path (strokes ! k)) = revealedColumns ?D 1 1
                 \<and> (\<forall>l \<in> set (path (strokes ! k)).
                       y_start l = bandCenter ?D Overlay (length [?T]) k
                         - normalizeAmplitude Individual gm
                             (waveformOf ([?T] ! k) 1 1 (width ?D) 0 ! line_x l)
                           * bandAmplitude ?D Overlay 50
                     \<and> y_end l = bandCenter ?D Overlay (length [?T]) k
                         + normalizeAmplitude Individual gm
                             (waveformOf ([?T] ! k) 1 1 (width ?D) 0 ! line_x l)
                           * bandAmplitude ?D Overlay 50))"
      by (elim exE conjE) (rule that; assumption)
    from lines have bs: "bs = []" and len: "length strokes = length [?T]"
      and cols: "map line_x (path (strokes ! 0)) = revealedColumns ?D 1 1"
      by simp_all
    have "render (100, 50) ?D [?T] 1 1 Overlay Individual 50 0 1
            = Inr [FillRect ''#000000'' 0 0 100 50, StrokePath (strokes ! 0), FillText label]"
      unfolding r bs by (subst single [OF len]) simp
    moreover have "map line_x (path (strokes ! 0)) = [0..<100]"
      unfolding cols using full by (simp add: w)
    ultimately show ?thesis
      by blast
  qed
  have C: "\<exists>b label.
         render (100, 50) ?D [?T] (1 / 2) 1 SpectrumOverlay Individual 50 0 1
           = Inr [FillRect ''#000000'' 0 0 100 50, StrokeBars b, FillText label]
       \<and> map bar_x (bars b) = map (\<lambda>i. real i * (100 / 1024)) [0..<1024]"
  proof -
    from progressive_reveal [OF ne h2, of "(100, 50)" ?D "1 / 2" 1 SpectrumOverlay Individual 50 0 1]
    obtain gm strokes bs label where
      r: "render (100, 50) ?D [?T] (1 / 2) 1 SpectrumOverlay Individual 50 0 1
            = Inr (FillRect ''#000000'' 0 0 (real (fst (100 :: nat, 50 :: nat)))
                     (real (snd (100 :: nat, 50 :: nat)))
                   # map StrokePath strokes @ map StrokeBars bs @ [FillText label])"
      and spectrum: "SpectrumOverlay = SpectrumOverlay \<or> SpectrumOverlay = SpectrumStacked \<longrightarrow>
               strokes = [] \<and> length bs = length [?T]
             \<and> (\<forall>k<length [?T].
                   map bar_x (bars (bs ! k))
                     = map (\<lambda>i. real i * (real (width ?D) / 1024)) [0..<1024])"
      by (elim exE conjE) (rule that; assumption)
    from spectrum have st: "strokes = []" and len: "length bs = length [?T]"
      and cols: "map bar_x (bars (bs ! 0))
                     = map (\<lambda>i. real i * (real (width ?D) / 1024)) [0..<1024]"
      by simp_all
    have "render (100, 50) ?D [?T] (1 / 2) 1 SpectrumOverlay Individual 50 0 1
            = Inr [FillRect ''#000000'' 0 0 100 50, StrokeBars (bs ! 0), FillText label]"
      unfolding r st by (subst single [OF len]) simp
    moreover have "map bar_x (bars (bs ! 0)) = map (\<lambda>i. real i * (100 / 1024)) [0..<1024]"
      unfolding cols w by simp
    ultimately show ?thesis
      by blast
  qed
  from ne h1 m m2 A B C show ?thesis
    by (intro conjI)
qed

text \<open>
  C8 as stated fails: the columns at and after \<open>maxX\<close> are not left at the background
  colour. In the example of the specification (width 100, \<open>currentTime\<close> half of
  \<open>windowDuration\<close>, so \<open>maxX = 50\<close>) the last command of the frame is the time label
  \<open>00:00\<close>, right-aligned at \<open>x = 90\<close>; and in the spectrum layout a bar is issued at
  \<open>x = 1023 * 100 / 1024\<close>.
\<close>

theorem progressive_reveal_counterexample:
  "(1 / 2 :: real) < 1
   \<and> revealMaxX (RenderContext 100 50) (1 / 2) 1 = 50
   \<and> last (commandsOf (render (100, 50) (RenderContext 100 50) [mockTrack [1 / 2, - 1] 2 1]
                         (1 / 2) 1 Overlay Individual 50 0 1))
       = FillText \<lparr>fillStyle = ''#FFFFFF'', font = ''14px monospace'', textAlign = ''right'',
                    textBaseline = ''bottom'', label_text = ''00:00'', label_x = 90, label_y = 40\<rparr>
   \<and> (50 :: real) \<le> 90
   \<and> 1023 * (100 / 1024)
       \<in> set (barColumns (commandsOf (render (100, 50) (RenderContext 100 50)
                                        [mockTrack [1 / 2, - 1] 2 1] (1 / 2) 1
                                        SpectrumOverlay Individual 50 0 1)))
   \<and> (50 :: real) \<le> 1023 * (100 / 1024)"
proof -
  let ?T = "mockTrack [1 / 2, - 1] 2 1"
  let ?D = "RenderContext 100 50"
  have ne: "[?T] \<noteq> []"
    by simp
  have h2: "\<forall>t \<in> set [?T]. channelData (buffer t) \<noteq> []"
    by (simp add: mockTrack_def)
  have w: "width ?D = 100" "height ?D = 50"
    by (simp_all add: RenderContext_def)
  have m: "revealMaxX ?D (1 / 2) 1 = 50"
    by (simp add: revealMaxX_def w double_ops fl_eval)
  have g0: "(if Individual = Normalized \<and> length [?T] > 0
             then calculateGlobalMaxAmplitude ?D [?T] (1 / 2) 1 else Inr 1.0) = Inr 1"
    by simp
  have l: "last (commandsOf (render (100, 50) ?D [?T] (1 / 2) 1 Overlay Individual 50 0 1))
             = renderTimeIndicator ?D (1 / 2) 1"
    unfolding render_lines [OF ne h2 disjI1 [OF refl] g0]
    by (simp add: commandsOf_def)
  have "(1023 :: nat) \<in> set [0..<1024]"
    by simp
  then have "real 1023 * (100 / 1024) \<in> (\<lambda>i. real i * (100 / 1024)) ` set [0..<1024]"
    by (rule imageI)
  then have b: "1023 * (100 / 1024)
       \<in> set (barColumns (commandsOf (render (100, 50) ?D [?T] (1 / 2) 1
                                        SpectrumOverlay Individual 50 0 1)))"
    unfolding barColumns_render [OF ne h2 disjI1 [OF refl]] w
    by (simp del: upt.simps set_upt)
  from m l b show ?thesis
    by (simp add: timeIndicator_example)
qed

end
